theory Spec2Isabelle
  imports Complex_Main "HOL-Library.AList"
begin

section \<open>TDataFrame: booking, slots and the cutflow report\<close>

text \<open>
  The development follows \<^verbatim>\<open>TDataFrame.cxx\<close> (namespaces \<^verbatim>\<open>ROOT::Internal\<close> and
  \<^verbatim>\<open>ROOT::Detail\<close>).  A \<^verbatim>\<open>TTree\<close> is seen through the two things the code asks of it:
  the branch found under a name, and the entries a reader walks through.  Branch values are
  integers; an entry number is a \<^verbatim>\<open>Long64_t\<close>, read as an \<open>int\<close>.  Slot numbers, vector
  sizes and the accept and reject counters are \<open>nat\<close>: a counter is bounded by the number of
  entries of the tree and a slot by the number of threads, so none of them reaches the range
  of its machine type.
\<close>

type_synonym BranchNames = "string list"

record TTree =
  tBranches :: "(string \<times> int list) list"
  tEntries :: nat

datatype error =
    BranchAlreadyPresent string
  | ArgsMismatch nat nat
  | OutOfRange string
  | UnknownBranch string
  | SlotOutOfBounds nat
  | UserCallableFailure
  | Diverges

subsection \<open>Free functions of \<^verbatim>\<open>ROOT::Internal\<close>\<close>


definition GetBranch :: "TTree \<Rightarrow> string \<Rightarrow> int list option" where
  "GetBranch t branchName = map_of (tBranches t) branchName"

definition CheckTmpBranch :: "string \<Rightarrow> TTree \<Rightarrow> error + unit" where
  "CheckTmpBranch branchName treePtr =
     (case GetBranch treePtr branchName of
        Some branch \<Rightarrow> Inl (BranchAlreadyPresent branchName)
      | None \<Rightarrow> Inr ())"

definition PickBranchNames :: "nat \<Rightarrow> BranchNames \<Rightarrow> BranchNames \<Rightarrow> error + BranchNames" where
  "PickBranchNames nArgs bl defBl =
     (if nArgs \<noteq> length bl then
        (if length bl = 0 \<and> nArgs = length defBl then Inr defBl
         else Inl (ArgsMismatch nArgs (if length bl \<noteq> 0 then length bl else length defBl)))
      else Inr bl)"

subsection \<open>Nodes\<close>

text \<open>
  A filter node (\<^verbatim>\<open>TDataFrameFilterBase\<close> with the members its template subclass adds).
  \<open>fPrevData\<close> is the upstream filter, as a position in the root's \<open>fBookedFilters\<close>, or
  \<open>None\<close> when the chain above holds no filter and ends at the root.  \<open>fFilter\<close> is the
  user's callable: \<open>None\<close> is a thrown exception.  The last field is not in the program: it
  logs every call of the callable as (slot, entry).
\<close>

record TDataFrameFilterBase =
  fName :: string
  fPrevData :: "nat option"
  fTmpBranches :: BranchNames
  fBranches :: BranchNames
  fFilter :: "int list \<Rightarrow> bool option"
  fLastCheckedEntry :: "int list"
  fLastResult :: "bool list"
  fAccepted :: "nat list"
  fRejected :: "nat list"
  fCalls :: "(nat \<times> int) list"

text \<open>A temporary branch (\<^verbatim>\<open>TDataFrameBranchBase\<close> and its template subclass).\<close>

record TDataFrameBranchBase =
  bName :: string
  bTmpBranches :: BranchNames
  bBranches :: BranchNames
  bExpression :: "int list \<Rightarrow> int option"
  bLastCheckedEntry :: "int list"
  bLastResult :: "int list"
  bCalls :: "(nat \<times> int) list"

text \<open>
  An action: a count or a take of one branch, with the value its partial results start
  from, one partial result per slot, and the position of the result object it shares with
  its result pointers.
\<close>

datatype partial = Counted nat | Taken "int list"

record TDataFrameActionBase =
  aPrevData :: "nat option"
  aTmpBranches :: BranchNames
  aBranches :: BranchNames
  aInit :: partial
  aPartial :: "partial list"
  aResult :: nat

text \<open>
  The root \<^verbatim>\<open>TDataFrameImpl\<close>.  \<open>fBookedNamedFilters\<close> holds pointers to objects that
  \<open>fBookedFilters\<close> holds too: positions in \<open>fBookedFilters\<close>.  \<open>fResProxyReadiness\<close> holds
  pointers to booleans shared with the result pointers: positions in \<open>readiness\<close>.
  \<open>readiness\<close> and \<open>results\<close> are the shared objects themselves, which live outside the
  root.  The last two fields are not in the program: \<open>passes\<close> counts the calls of
  \<^verbatim>\<open>Run\<close>, and \<open>throws\<close> counts the exceptions that the user's callables have thrown.
\<close>

record TDataFrameImpl =
  fTree :: TTree
  fDefaultBranches :: BranchNames
  fNSlots :: nat
  fHasRunAtLeastOnce :: bool
  fBookedActions :: "TDataFrameActionBase list"
  fBookedFilters :: "TDataFrameFilterBase list"
  fBookedNamedFilters :: "nat list"
  fBookedBranches :: "(string \<times> TDataFrameBranchBase) list"
  fResProxyReadiness :: "nat list"
  readiness :: "bool list"
  results :: "partial list"
  passes :: nat
  throws :: nat

definition HasName :: "TDataFrameFilterBase \<Rightarrow> bool" where
  "HasName f = (fName f \<noteq> [])"

subsection \<open>Booking\<close>

definition BookAction :: "TDataFrameActionBase \<Rightarrow> TDataFrameImpl \<Rightarrow> TDataFrameImpl" where
  "BookAction actionPtr df = df\<lparr>fBookedActions := fBookedActions df @ [actionPtr]\<rparr>"

definition BookFilter :: "TDataFrameFilterBase \<Rightarrow> TDataFrameImpl \<Rightarrow> TDataFrameImpl" where
  "BookFilter filterPtr df =
     (let df1 = df\<lparr>fBookedFilters := fBookedFilters df @ [filterPtr]\<rparr>
      in if HasName filterPtr
         then df1\<lparr>fBookedNamedFilters := fBookedNamedFilters df1 @ [length (fBookedFilters df)]\<rparr>
         else df1)"

definition BookBranch :: "TDataFrameBranchBase \<Rightarrow> TDataFrameImpl \<Rightarrow> TDataFrameImpl" where
  "BookBranch branchPtr df =
     df\<lparr>fBookedBranches := AList.update (bName branchPtr) branchPtr (fBookedBranches df)\<rparr>"

subsection \<open>Slots\<close>

text \<open>\<^verbatim>\<open>std::vector::resize\<close> with a fill value: it cuts, or appends copies of the value.\<close>

definition resize :: "nat \<Rightarrow> 'a \<Rightarrow> 'a list \<Rightarrow> 'a list" where
  "resize n x v = take n v @ replicate (n - length v) x"

text \<open>
  \<^verbatim>\<open>TDataFrameFilterBase::CreateSlots\<close>.  The vector of reader values is left out of the
  model: a branch is read from the tree directly.  The log of calls starts again with every
  event loop.
\<close>

definition FilterCreateSlots :: "nat \<Rightarrow> TDataFrameFilterBase \<Rightarrow> TDataFrameFilterBase" where
  "FilterCreateSlots nSlots f =
     f\<lparr>fLastCheckedEntry := resize nSlots (- 1) (fLastCheckedEntry f),
       fLastResult := resize nSlots False (fLastResult f),
       fAccepted := map (\<lambda>_. 0) (resize nSlots 0 (fAccepted f)),
       fRejected := map (\<lambda>_. 0) (resize nSlots 0 (fRejected f)),
       fCalls := []\<rparr>"

text \<open>
  Modelled from the spec: \<^verbatim>\<open>CreateSlots\<close> of a temporary branch, which the header defines.
  The spec gives every node one cache per slot, with a last-evaluated entry that starts at
  the sentinel "never", and the last value.
\<close>

definition BranchCreateSlots :: "nat \<Rightarrow> TDataFrameBranchBase \<Rightarrow> TDataFrameBranchBase" where
  "BranchCreateSlots nSlots b =
     b\<lparr>bLastCheckedEntry := resize nSlots (- 1) (bLastCheckedEntry b),
       bLastResult := resize nSlots 0 (bLastResult b),
       bCalls := []\<rparr>"

text \<open>
  \<^verbatim>\<open>TDataFrameActionBase::CreateSlots\<close> resizes the reader values only: the partial results
  of an action are sized when the action is built.
\<close>

definition ActionCreateSlots :: "nat \<Rightarrow> TDataFrameActionBase \<Rightarrow> TDataFrameActionBase" where
  "ActionCreateSlots nSlots a = a"

definition CreateSlots :: "nat \<Rightarrow> TDataFrameImpl \<Rightarrow> TDataFrameImpl" where
  "CreateSlots nSlots df =
     df\<lparr>fBookedActions := map (ActionCreateSlots nSlots) (fBookedActions df),
        fBookedFilters := map (FilterCreateSlots nSlots) (fBookedFilters df),
        fBookedBranches := map (\<lambda>(n, b). (n, BranchCreateSlots nSlots b)) (fBookedBranches df)\<rparr>"

subsection \<open>The cutflow report\<close>

text \<open>
  \<^verbatim>\<open>PrintReport\<close> prints one line; the model keeps the four values the line is formatted
  from.  The percentage is a \<^verbatim>\<open>double\<close> in the program and a real number here.
\<close>

record ReportLine =
  rName :: string
  rAccepted :: nat
  rAll :: nat
  rPerc :: real

definition PrintReport :: "TDataFrameFilterBase \<Rightarrow> ReportLine" where
  "PrintReport f =
     (let accepted = sum_list (fAccepted f);
          all = accepted + sum_list (fRejected f);
          perc = real accepted;
          perc = (if all > 0 then perc / real all else perc);
          perc = perc * 100
      in \<lparr>rName = fName f, rAccepted = accepted, rAll = all, rPerc = perc\<rparr>)"

definition Report :: "TDataFrameImpl \<Rightarrow> ReportLine list" where
  "Report df = map (\<lambda>fPtr. PrintReport (fBookedFilters df ! fPtr)) (fBookedNamedFilters df)"

subsection \<open>The slot of a thread\<close>

text \<open>
  The critical section at the head of the function that \<^verbatim>\<open>Run\<close> hands to
  \<^verbatim>\<open>TTreeProcessorMT::Process\<close>.  The mutex makes it one step; threads are numbered.
\<close>

record SlotState =
  slotMap :: "nat \<rightharpoonup> nat"
  globalSlotIndex :: nat

definition InitialSlots :: SlotState where
  "InitialSlots = \<lparr>slotMap = Map.empty, globalSlotIndex = 0\<rparr>"

definition AcquireSlot :: "nat \<Rightarrow> SlotState \<Rightarrow> nat \<times> SlotState" where
  "AcquireSlot thisThreadID s =
     (case slotMap s thisThreadID of
        Some slot \<Rightarrow> (slot, s)
      | None \<Rightarrow>
          (globalSlotIndex s,
           s\<lparr>slotMap := (slotMap s)(thisThreadID \<mapsto> globalSlotIndex s),
             globalSlotIndex := globalSlotIndex s + 1\<rparr>))"


subsection \<open>Evaluation of one entry\<close>

text \<open>
  Every function below returns the root it leaves behind together with its value or the
  exception it throws: what a node wrote before an exception stays written.  The first
  argument bounds the depth of the calls; the value \<open>Diverges\<close> stands for a recursion of the
  program that does not return.  An index past the end of a per-slot vector, which the
  program does not check, is the value \<open>SlotOutOfBounds\<close>.
\<close>

type_synonym 'a outcome = "(error + 'a) \<times> TDataFrameImpl"

definition ReadBranch :: "TTree \<Rightarrow> string \<Rightarrow> int \<Rightarrow> int option" where
  "ReadBranch t branchName entry =
     (case GetBranch t branchName of
        None \<Rightarrow> None
      | Some vs \<Rightarrow> if 0 \<le> entry \<and> nat entry < length vs then Some (vs ! nat entry) else None)"

text \<open>
  A write to an object that the root holds: the temporary branch stored under a name, the
  filter or the action at a position.
\<close>

definition ModifyBranch ::
  "string \<Rightarrow> (TDataFrameBranchBase \<Rightarrow> TDataFrameBranchBase) \<Rightarrow> TDataFrameImpl \<Rightarrow> TDataFrameImpl" where
  "ModifyBranch branch g df = df\<lparr>fBookedBranches := AList.map_entry branch g (fBookedBranches df)\<rparr>"

definition ModifyFilter ::
  "nat \<Rightarrow> (TDataFrameFilterBase \<Rightarrow> TDataFrameFilterBase) \<Rightarrow> TDataFrameImpl \<Rightarrow> TDataFrameImpl" where
  "ModifyFilter i g df = df\<lparr>fBookedFilters := (fBookedFilters df)[i := g (fBookedFilters df ! i)]\<rparr>"

definition ModifyAction ::
  "nat \<Rightarrow> (TDataFrameActionBase \<Rightarrow> TDataFrameActionBase) \<Rightarrow> TDataFrameImpl \<Rightarrow> TDataFrameImpl" where
  "ModifyAction i g df = df\<lparr>fBookedActions := (fBookedActions df)[i := g (fBookedActions df ! i)]\<rparr>"

text \<open>
  Modelled from the spec: the call of the callable of a derived column, which the header
  defines.  The node evaluates the callable, stores the value and the entry in the cache of
  the slot, and returns the value; a callable that throws leaves the cache as it was.  The
  call is logged, and so is the exception when the callable throws.
\<close>

definition CallExpression ::
  "TDataFrameBranchBase \<Rightarrow> string \<Rightarrow> nat \<Rightarrow> int \<Rightarrow> int list \<Rightarrow> TDataFrameImpl \<Rightarrow> int outcome" where
  "CallExpression b branch slot entry vs df1 =
     (let df2 = ModifyBranch branch (\<lambda>b. b\<lparr>bCalls := bCalls b @ [(slot, entry)]\<rparr>) df1
      in case bExpression b vs of
           None \<Rightarrow> (Inl UserCallableFailure, df2\<lparr>throws := throws df2 + 1\<rparr>)
         | Some v \<Rightarrow>
             (Inr v,
              ModifyBranch branch
                (\<lambda>b. b\<lparr>bLastResult := (bLastResult b)[slot := v],
                       bLastCheckedEntry := (bLastCheckedEntry b)[slot := entry]\<rparr>)
                df2))"

text \<open>
  Modelled from the spec: \<^verbatim>\<open>GetValue\<close> of a temporary branch and the reading of the inputs
  of a node, which the header defines.  On a request for a slot and an entry, a derived
  column whose slot cache records the entry returns the cached value; otherwise it
  evaluates the callable on its inputs.  An input is a derived column when the node lists
  it among its temporary branches, and a branch of the tree otherwise.  \<^verbatim>\<open>GetValue\<close> is
  reached through \<^verbatim>\<open>TDataFrameImpl::GetTmpBranchValue\<close> of the source, which looks the
  branch up by name in \<open>fBookedBranches\<close>: \<^verbatim>\<open>std::map::at\<close> throws when the name is absent.
\<close>

fun GetTmpBranchValue :: "nat \<Rightarrow> string \<Rightarrow> nat \<Rightarrow> int \<Rightarrow> TDataFrameImpl \<Rightarrow> int outcome"
  and ReadValues ::
    "nat \<Rightarrow> BranchNames \<Rightarrow> BranchNames \<Rightarrow> nat \<Rightarrow> int \<Rightarrow> TDataFrameImpl \<Rightarrow> (int list) outcome"
where
  "GetTmpBranchValue 0 branch slot entry df = (Inl Diverges, df)"
| "GetTmpBranchValue (Suc k) branch slot entry df =
     (case map_of (fBookedBranches df) branch of
        None \<Rightarrow> (Inl (OutOfRange branch), df)
      | Some b \<Rightarrow>
          if slot < length (bLastCheckedEntry b) \<and> slot < length (bLastResult b) then
            if entry \<noteq> bLastCheckedEntry b ! slot then
              (case ReadValues k (bBranches b) (bTmpBranches b) slot entry df of
                 (Inl e, df1) \<Rightarrow> (Inl e, df1)
               | (Inr vs, df1) \<Rightarrow> CallExpression b branch slot entry vs df1)
            else (Inr (bLastResult b ! slot), df)
          else (Inl (SlotOutOfBounds slot), df))"
| "ReadValues k [] tmpbl slot entry df = (Inr [], df)"
| "ReadValues k (c # cs) tmpbl slot entry df =
     (case (if c \<in> set tmpbl then GetTmpBranchValue k c slot entry df
            else (case ReadBranch (fTree df) c entry of
                    None \<Rightarrow> (Inl (UnknownBranch c), df)
                  | Some v \<Rightarrow> (Inr v, df))) of
        (Inl e, df1) \<Rightarrow> (Inl e, df1)
      | (Inr v, df1) \<Rightarrow>
          (case ReadValues k cs tmpbl slot entry df1 of
             (Inl e, df2) \<Rightarrow> (Inl e, df2)
           | (Inr vs, df2) \<Rightarrow> (Inr (v # vs), df2)))"

text \<open>
  Modelled from the spec: what a filter node records when an ancestor returned false, which
  the header defines: the result false and the entry, without evaluating its callable.
\<close>

definition RecordRejected :: "nat \<Rightarrow> nat \<Rightarrow> int \<Rightarrow> TDataFrameImpl \<Rightarrow> TDataFrameImpl" where
  "RecordRejected i slot entry df1 =
     ModifyFilter i
       (\<lambda>f. f\<lparr>fLastResult := (fLastResult f)[slot := False],
              fLastCheckedEntry := (fLastCheckedEntry f)[slot := entry]\<rparr>)
       df1"

text \<open>
  Modelled from the spec: the call of the callable of a filter node, which the header
  defines.  The node evaluates the callable, records its result and the entry and, if the
  filter is named, increments accept or reject; a callable that throws leaves the cache
  and the counters as they were.  The call is logged, and so is the exception when the
  callable throws.
\<close>

definition CallFilter ::
  "TDataFrameFilterBase \<Rightarrow> nat \<Rightarrow> nat \<Rightarrow> int \<Rightarrow> int list \<Rightarrow> TDataFrameImpl \<Rightarrow> bool outcome" where
  "CallFilter f i slot entry vs df2 =
     (let df3 = ModifyFilter i (\<lambda>f. f\<lparr>fCalls := fCalls f @ [(slot, entry)]\<rparr>) df2
      in case fFilter f vs of
           None \<Rightarrow> (Inl UserCallableFailure, df3\<lparr>throws := throws df3 + 1\<rparr>)
         | Some passed \<Rightarrow>
             (Inr passed,
              ModifyFilter i
                (\<lambda>f. f\<lparr>fAccepted :=
                         (if HasName f \<and> passed
                          then (fAccepted f)[slot := fAccepted f ! slot + 1]
                          else fAccepted f),
                       fRejected :=
                         (if HasName f \<and> \<not> passed
                          then (fRejected f)[slot := fRejected f ! slot + 1]
                          else fRejected f),
                       fLastResult := (fLastResult f)[slot := passed],
                       fLastCheckedEntry := (fLastCheckedEntry f)[slot := entry]\<rparr>)
                df3))"

text \<open>
  Modelled from the spec: \<^verbatim>\<open>CheckFilters\<close> of a filter node, which the header defines.  On
  evaluation for a slot and an entry: if the node's slot cache records the entry, return the
  cached result; else evaluate the parent filter chain, and if an ancestor returns false,
  record false and return false; else evaluate the callable.  At the root (\<open>None\<close>) the
  function is \<^verbatim>\<open>TDataFrameImpl::CheckFilters\<close> of the source, the end of the chain of
  calls, which returns true.
\<close>

fun CheckFilters :: "nat \<Rightarrow> nat option \<Rightarrow> nat \<Rightarrow> int \<Rightarrow> TDataFrameImpl \<Rightarrow> bool outcome" where
  "CheckFilters k None slot entry df = (Inr True, df)"
| "CheckFilters 0 (Some i) slot entry df = (Inl Diverges, df)"
| "CheckFilters (Suc k) (Some i) slot entry df =
     (let f = fBookedFilters df ! i in
      if slot < length (fLastCheckedEntry f) \<and> slot < length (fLastResult f)
         \<and> slot < length (fAccepted f) \<and> slot < length (fRejected f) then
        if entry \<noteq> fLastCheckedEntry f ! slot then
          (case CheckFilters k (fPrevData f) slot entry df of
             (Inl e, df1) \<Rightarrow> (Inl e, df1)
           | (Inr False, df1) \<Rightarrow> (Inr False, RecordRejected i slot entry df1)
           | (Inr True, df1) \<Rightarrow>
               (case ReadValues k (fBranches f) (fTmpBranches f) slot entry df1 of
                  (Inl e, df2) \<Rightarrow> (Inl e, df2)
                | (Inr vs, df2) \<Rightarrow> CallFilter f i slot entry vs df2))
        else (Inr (fLastResult f ! slot), df)
      else (Inl (SlotOutOfBounds slot), df))"

subsection \<open>Actions\<close>

text \<open>
  Modelled from the spec: the update of a partial result by an accepted entry, which the
  header defines.  A count adds one; a take appends the value.
\<close>

definition Exec :: "partial \<Rightarrow> int list \<Rightarrow> partial" where
  "Exec p vs = (case p of Counted n \<Rightarrow> Counted (n + 1) | Taken xs \<Rightarrow> Taken (xs @ vs))"

text \<open>
  Modelled from the spec: the merge of two partial results, which the header defines.
  Counts are summed, taken values are concatenated.
\<close>

definition Merge :: "partial \<Rightarrow> partial \<Rightarrow> partial" where
  "Merge p q =
     (case p of
        Counted m \<Rightarrow> (case q of Counted n \<Rightarrow> Counted (m + n) | Taken ys \<Rightarrow> p)
      | Taken xs \<Rightarrow> (case q of Counted n \<Rightarrow> p | Taken ys \<Rightarrow> Taken (xs @ ys)))"

text \<open>
  Modelled from the spec: to finalise an action, which the header defines, is to merge its
  partial results in the order of the slots.
\<close>

definition Finalise :: "TDataFrameActionBase \<Rightarrow> partial" where
  "Finalise a = foldl Merge (aInit a) (aPartial a)"

text \<open>
  Modelled from the spec: the write of the updated partial result of a slot, which the
  header defines.
\<close>

definition StorePartial :: "nat \<Rightarrow> nat \<Rightarrow> int list \<Rightarrow> TDataFrameImpl \<Rightarrow> TDataFrameImpl" where
  "StorePartial i slot vs df2 =
     ModifyAction i (\<lambda>a. a\<lparr>aPartial := (aPartial a)[slot := Exec (aPartial a ! slot) vs]\<rparr>) df2"

text \<open>
  Modelled from the spec: the run of an action for a slot and an entry, which the header
  defines.  It evaluates the ancestor filter chain and, if accepted, updates the slot's
  partial result with the current input values.
\<close>

definition ActionRun :: "nat \<Rightarrow> nat \<Rightarrow> nat \<Rightarrow> int \<Rightarrow> TDataFrameImpl \<Rightarrow> unit outcome" where
  "ActionRun k i slot entry df =
     (let a = fBookedActions df ! i in
      case CheckFilters k (aPrevData a) slot entry df of
        (Inl e, df1) \<Rightarrow> (Inl e, df1)
      | (Inr False, df1) \<Rightarrow> (Inr (), df1)
      | (Inr True, df1) \<Rightarrow>
          (case ReadValues k (aBranches a) (aTmpBranches a) slot entry df1 of
             (Inl e, df2) \<Rightarrow> (Inl e, df2)
           | (Inr vs, df2) \<Rightarrow>
               if slot < length (aPartial a) then (Inr (), StorePartial i slot vs df2)
               else (Inl (SlotOutOfBounds slot), df2)))"

subsection \<open>The event loop\<close>

text \<open>
  The body of the \<^verbatim>\<open>while (r.Next())\<close> loops of \<^verbatim>\<open>Run\<close>: every booked action runs, then
  every named filter is checked.  The actions and the named filters are walked by position.
\<close>

fun RunActions :: "nat \<Rightarrow> nat list \<Rightarrow> nat \<Rightarrow> int \<Rightarrow> TDataFrameImpl \<Rightarrow> unit outcome" where
  "RunActions k [] slot currEntry df = (Inr (), df)"
| "RunActions k (actionPtr # rest) slot currEntry df =
     (case ActionRun k actionPtr slot currEntry df of
        (Inl e, df1) \<Rightarrow> (Inl e, df1)
      | (Inr u, df1) \<Rightarrow> RunActions k rest slot currEntry df1)"

fun CheckNamedFilters :: "nat \<Rightarrow> nat list \<Rightarrow> nat \<Rightarrow> int \<Rightarrow> TDataFrameImpl \<Rightarrow> unit outcome" where
  "CheckNamedFilters k [] slot currEntry df = (Inr (), df)"
| "CheckNamedFilters k (namedFilterPtr # rest) slot currEntry df =
     (case CheckFilters k (Some namedFilterPtr) slot currEntry df of
        (Inl e, df1) \<Rightarrow> (Inl e, df1)
      | (Inr passed, df1) \<Rightarrow> CheckNamedFilters k rest slot currEntry df1)"

definition ProcessEntry :: "nat \<Rightarrow> nat \<Rightarrow> int \<Rightarrow> TDataFrameImpl \<Rightarrow> unit outcome" where
  "ProcessEntry k slot currEntry df =
     (case RunActions k [0..<length (fBookedActions df)] slot currEntry df of
        (Inl e, df1) \<Rightarrow> (Inl e, df1)
      | (Inr u, df1) \<Rightarrow> CheckNamedFilters k (fBookedNamedFilters df1) slot currEntry df1)"

fun EventLoop :: "nat \<Rightarrow> nat \<Rightarrow> int list \<Rightarrow> TDataFrameImpl \<Rightarrow> unit outcome" where
  "EventLoop k slot [] df = (Inr (), df)"
| "EventLoop k slot (currEntry # rest) df =
     (case ProcessEntry k slot currEntry df of
        (Inl e, df1) \<Rightarrow> (Inl e, df1)
      | (Inr u, df1) \<Rightarrow> EventLoop k slot rest df1)"

text \<open>
  \<^verbatim>\<open>TTreeProcessorMT::Process\<close> calls the function it is given once per task, on some thread
  of the pool and with a reader over the task's entries.  The model is given the calls as a
  list of (thread, entries) and makes them one after the other; the threads share nothing
  but the slot map, which the mutex guards.  A call that throws ends the processing.
\<close>

fun Process :: "nat \<Rightarrow> (nat \<times> int list) list \<Rightarrow> SlotState \<Rightarrow> TDataFrameImpl \<Rightarrow> unit outcome" where
  "Process k [] s df = (Inr (), df)"
| "Process k ((thisThreadID, entries) # tasks) s df =
     (case AcquireSlot thisThreadID s of
        (slot, s') \<Rightarrow>
          (case EventLoop k slot entries df of
             (Inl e, df1) \<Rightarrow> (Inl e, df1)
           | (Inr u, df1) \<Rightarrow> Process k tasks s' df1))"

subsection \<open>\<^verbatim>\<open>TDataFrameImpl::Run\<close>\<close>

text \<open>
  The depth of calls that the evaluation of an entry is given: no chain of filters is longer
  than the list of booked filters, and no chain of temporary branches that depend on one
  another without a cycle is longer than the list of booked branches.
\<close>

definition CallDepth :: "TDataFrameImpl \<Rightarrow> nat" where
  "CallDepth df = length (fBookedFilters df) + length (fBookedBranches df) + 1"

text \<open>
  Modelled from the spec: the publication of the results, which the header defines.  Every
  action is finalised and its merged result is written to the result object it shares with
  its handles.
\<close>

definition Publish :: "TDataFrameActionBase list \<Rightarrow> partial list \<Rightarrow> partial list" where
  "Publish actions rs = foldl (\<lambda>rs a. rs[aResult a := Finalise a]) rs actions"

text \<open>
  The statements of \<^verbatim>\<open>Run\<close> after the event loop: the has-run flag is set, the list of
  booked actions is cleared, which destroys the actions and so publishes their results,
  every readiness flag the root holds is set and the list of flags is cleared.
\<close>

definition MarkReady :: "nat list \<Rightarrow> bool list \<Rightarrow> bool list" where
  "MarkReady ptrs flags = foldl (\<lambda>flags p. flags[p := True]) flags ptrs"

definition AfterLoop :: "TDataFrameImpl \<Rightarrow> TDataFrameImpl" where
  "AfterLoop df =
     df\<lparr>fHasRunAtLeastOnce := True,
        results := Publish (fBookedActions df) (results df),
        fBookedActions := [],
        readiness := MarkReady (fResProxyReadiness df) (readiness df),
        fResProxyReadiness := []\<rparr>"

text \<open>
  \<^verbatim>\<open>Run\<close>: the event loop of one of the two branches (\<open>RunLoop\<close>), then the statements after
  it, which an exception thrown in the loop skips.  \<open>imtEnabled\<close> is what
  \<^verbatim>\<open>ROOT::IsImplicitMTEnabled()\<close> answers when the loop starts, \<open>tasks\<close> is what the processor
  of the parallel branch does.  The sequential reader walks through the entries
  \<open>0, 1, ...\<close> of the tree.  \<^verbatim>\<open>BuildAllReaderValues\<close> builds the reader values, which the
  model leaves out.
\<close>

definition RunLoop :: "bool \<Rightarrow> (nat \<times> int list) list \<Rightarrow> TDataFrameImpl \<Rightarrow> unit outcome" where
  "RunLoop imtEnabled tasks df0 =
     (let df = df0\<lparr>passes := passes df0 + 1\<rparr> in
      if imtEnabled
      then Process (CallDepth df) tasks InitialSlots (CreateSlots (fNSlots df) df)
      else EventLoop (CallDepth df) 0 (map int [0..<tEntries (fTree df)]) (CreateSlots 1 df))"

definition Run :: "bool \<Rightarrow> (nat \<times> int list) list \<Rightarrow> TDataFrameImpl \<Rightarrow> unit outcome" where
  "Run imtEnabled tasks df =
     (case RunLoop imtEnabled tasks df of
        (Inl e, df1) \<Rightarrow> (Inl e, df1)
      | (Inr u, df1) \<Rightarrow> (Inr (), AfterLoop df1))"

subsection \<open>The interface\<close>

text \<open>
  The booking of a temporary branch on a node whose temporary branches are \<open>tmpbl\<close>, by a
  callable of \<open>nArgs\<close> arguments.  The template that does it is in the header; the check of
  the name, the choice of the inputs and the storing are the functions of the source given
  above.
\<close>

definition AddCol ::
  "string \<Rightarrow> (int list \<Rightarrow> int option) \<Rightarrow> nat \<Rightarrow> BranchNames \<Rightarrow> BranchNames \<Rightarrow> TDataFrameImpl
     \<Rightarrow> error + TDataFrameImpl" where
  "AddCol name expression nArgs bl tmpbl df =
     (case CheckTmpBranch name (fTree df) of
        Inl e \<Rightarrow> Inl e
      | Inr u \<Rightarrow>
          (case PickBranchNames nArgs bl (fDefaultBranches df) of
             Inl e \<Rightarrow> Inl e
           | Inr actualBl \<Rightarrow>
               Inr (BookBranch
                      \<lparr>bName = name, bTmpBranches = tmpbl, bBranches = actualBl,
                       bExpression = expression, bLastCheckedEntry = [], bLastResult = [],
                       bCalls = []\<rparr> df)))"

text \<open>
  Modelled from the spec: the result handle, which the header defines.  It holds a
  readiness flag shared with the root and a reference to the finalised result; both are
  positions in the lists of shared objects.
\<close>

record TActionResultPtr =
  fReadiness :: nat
  fObjPtr :: nat

text \<open>
  Modelled from the spec: the booking of an action, which the header defines.  It stores
  the action and issues a result handle that becomes ready only after the next pass; the
  partial results are sized by the root's number of slots.
\<close>

definition BookResult ::
  "nat option \<Rightarrow> BranchNames \<Rightarrow> BranchNames \<Rightarrow> partial \<Rightarrow> TDataFrameImpl
     \<Rightarrow> TActionResultPtr \<times> TDataFrameImpl" where
  "BookResult prev tmpbl bl init df =
     (let h = \<lparr>fReadiness = length (readiness df), fObjPtr = length (results df)\<rparr>;
          a = \<lparr>aPrevData = prev, aTmpBranches = tmpbl, aBranches = bl, aInit = init,
               aPartial = replicate (fNSlots df) init, aResult = fObjPtr h\<rparr>
      in (h, BookAction a
               (df\<lparr>fResProxyReadiness := fResProxyReadiness df @ [fReadiness h],
                   readiness := readiness df @ [False],
                   results := results df @ [init]\<rparr>)))"

text \<open>
  Modelled from the spec: the observation of a result handle, which the header defines.  If
  the handle is not ready, it triggers the root's run; then it returns the finalised value.
\<close>

definition Get ::
  "bool \<Rightarrow> (nat \<times> int list) list \<Rightarrow> TActionResultPtr \<Rightarrow> TDataFrameImpl \<Rightarrow> partial outcome" where
  "Get imtEnabled tasks h df =
     (if \<not> readiness df ! fReadiness h then
        (case Run imtEnabled tasks df of
           (Inl e, df1) \<Rightarrow> (Inl e, df1)
         | (Inr u, df1) \<Rightarrow> (Inr (results df1 ! fObjPtr h), df1))
      else (Inr (results df ! fObjPtr h), df))"

text \<open>
  Modelled from the spec: \<^verbatim>\<open>Report\<close> of the interface, which the header defines.  If no pass
  has yet run, it triggers one; then it prints the report of the root.
\<close>

definition ReportOf ::
  "bool \<Rightarrow> (nat \<times> int list) list \<Rightarrow> TDataFrameImpl \<Rightarrow> (ReportLine list) outcome" where
  "ReportOf imtEnabled tasks df =
     (if \<not> fHasRunAtLeastOnce df then
        (case Run imtEnabled tasks df of
           (Inl e, df1) \<Rightarrow> (Inl e, df1)
         | (Inr u, df1) \<Rightarrow> (Inr (Report df1), df1))
      else (Inr (Report df), df))"

subsection \<open>Notions used to state the properties\<close>



text \<open>The named filters of a root are its filters that have a name, in the order of booking.\<close>

definition NamedInOrder :: "TDataFrameImpl \<Rightarrow> bool" where
  "NamedInOrder df =
     (fBookedNamedFilters df =
        filter (\<lambda>i. HasName (fBookedFilters df ! i)) [0..<length (fBookedFilters df)])"

text \<open>
  What booking fixes of a node, as opposed to what an event loop writes to it; and two roots
  that differ in nothing but what the event loop writes to the nodes, and in the count of
  the exceptions thrown.
\<close>

definition FilterShape ::
  "TDataFrameFilterBase \<Rightarrow>
     string \<times> nat option \<times> BranchNames \<times> BranchNames \<times> (int list \<Rightarrow> bool option)" where
  "FilterShape f = (fName f, fPrevData f, fTmpBranches f, fBranches f, fFilter f)"

definition BranchShape ::
  "TDataFrameBranchBase \<Rightarrow> string \<times> BranchNames \<times> BranchNames \<times> (int list \<Rightarrow> int option)" where
  "BranchShape b = (bName b, bTmpBranches b, bBranches b, bExpression b)"

definition ActionShape ::
  "TDataFrameActionBase \<Rightarrow> nat option \<times> BranchNames \<times> BranchNames \<times> partial \<times> nat \<times> nat" where
  "ActionShape a =
     (aPrevData a, aTmpBranches a, aBranches a, aInit a, aResult a, length (aPartial a))"

definition SameBooking :: "TDataFrameImpl \<Rightarrow> TDataFrameImpl \<Rightarrow> bool" where
  "SameBooking df df' =
     (fTree df' = fTree df \<and> fDefaultBranches df' = fDefaultBranches df \<and>
      fNSlots df' = fNSlots df \<and> fHasRunAtLeastOnce df' = fHasRunAtLeastOnce df \<and>
      map ActionShape (fBookedActions df') = map ActionShape (fBookedActions df) \<and>
      map FilterShape (fBookedFilters df') = map FilterShape (fBookedFilters df) \<and>
      fBookedNamedFilters df' = fBookedNamedFilters df \<and>
      map (\<lambda>(n, b). (n, BranchShape b)) (fBookedBranches df') =
        map (\<lambda>(n, b). (n, BranchShape b)) (fBookedBranches df) \<and>
      fResProxyReadiness df' = fResProxyReadiness df \<and> readiness df' = readiness df \<and>
      results df' = results df \<and> passes df' = passes df)"

text \<open>
  A root as booking builds it: the upstream filter of a filter was booked before it, the
  pointers to filters point to booked filters, the temporary branches have names of their
  own, and \<open>rk\<close> ranks them so that a temporary branch that another one reads has the lower
  rank, below the number of booked branches.
\<close>

definition WellFormed :: "(string \<Rightarrow> nat) \<Rightarrow> TDataFrameImpl \<Rightarrow> bool" where
  "WellFormed rk df =
     ((\<forall>i < length (fBookedFilters df).
         \<forall>p. fPrevData (fBookedFilters df ! i) = Some p \<longrightarrow> p < i) \<and>
      (\<forall>i \<in> set (fBookedNamedFilters df). i < length (fBookedFilters df)) \<and>
      (\<forall>a \<in> set (fBookedActions df).
         \<forall>p. aPrevData a = Some p \<longrightarrow> p < length (fBookedFilters df)) \<and>
      distinct (map fst (fBookedBranches df)) \<and>
      (\<forall>(n, b) \<in> set (fBookedBranches df).
         rk n < length (fBookedBranches df) \<and>
         (\<forall>c \<in> set (bBranches b). c \<in> set (bTmpBranches b) \<longrightarrow> rk c < rk n)))"

text \<open>
  The calls of a callable logged so far are no call made twice, all of them at entries that
  are done or at the current entry in the current slot, and a call at the current entry is
  recorded in the cache of the slot.
\<close>

definition CallsOk :: "int set \<Rightarrow> nat \<Rightarrow> int \<Rightarrow> (nat \<times> int) list \<Rightarrow> int list \<Rightarrow> bool" where
  "CallsOk done slot entry calls lastChecked =
     (distinct calls \<and>
      (\<forall>(s, e) \<in> set calls. e \<in> done \<or> (e = entry \<and> s = slot)) \<and>
      ((slot, entry) \<in> set calls \<longrightarrow> slot < length lastChecked \<and> lastChecked ! slot = entry))"

definition Once :: "int set \<Rightarrow> nat \<Rightarrow> int \<Rightarrow> TDataFrameImpl \<Rightarrow> bool" where
  "Once done slot entry df =
     ((\<forall>f \<in> set (fBookedFilters df). CallsOk done slot entry (fCalls f) (fLastCheckedEntry f)) \<and>
      (\<forall>(n, b) \<in> set (fBookedBranches df).
         CallsOk done slot entry (bCalls b) (bLastCheckedEntry b)))"

definition NodeLogged :: "int set \<Rightarrow> (nat \<times> int) list \<Rightarrow> bool" where
  "NodeLogged done calls = (distinct calls \<and> (\<forall>x \<in> set calls. snd x \<in> done))"

definition Logged :: "int set \<Rightarrow> TDataFrameImpl \<Rightarrow> bool" where
  "Logged done df =
     ((\<forall>f \<in> set (fBookedFilters df). NodeLogged done (fCalls f)) \<and>
      (\<forall>(n, b) \<in> set (fBookedBranches df). NodeLogged done (bCalls b)))"

text \<open>
  After an evaluation at the current entry: what holds of the logs when it returned, and
  when it threw.
\<close>

definition OnceAfter :: "int set \<Rightarrow> nat \<Rightarrow> int \<Rightarrow> 'a outcome \<Rightarrow> bool" where
  "OnceAfter done slot entry out =
     (case fst out of
        Inl e \<Rightarrow> Logged (insert entry done) (snd out)
      | Inr v \<Rightarrow> Once done slot entry (snd out))"

text \<open>
  An evaluation that started at the root \<open>df\<close> has the outcome \<open>out\<close>: the exceptions counted
  are one more when the outcome is the exception of a user's callable, and as many as
  before when it is a value or another exception.
\<close>

definition Thrown :: "TDataFrameImpl \<Rightarrow> 'a outcome \<Rightarrow> bool" where
  "Thrown df out =
     (throws (snd out) = throws df + (if fst out = Inl UserCallableFailure then 1 else 0))"

text \<open>
  A relation between roots that every write of the evaluation of an entry, in a slot,
  respects.
\<close>

definition Keeps :: "(TDataFrameImpl \<Rightarrow> TDataFrameImpl \<Rightarrow> bool) \<Rightarrow> nat \<Rightarrow> int \<Rightarrow> bool" where
  "Keeps R slot entry =
     ((\<forall>d b c vs. R d (snd (CallExpression b c slot entry vs d))) \<and>
      (\<forall>d i. R d (RecordRejected i slot entry d)) \<and>
      (\<forall>d f i vs. R d (snd (CallFilter f i slot entry vs d))) \<and>
      (\<forall>d i vs. R d (StorePartial i slot vs d)))"

definition Preorder :: "(TDataFrameImpl \<Rightarrow> TDataFrameImpl \<Rightarrow> bool) \<Rightarrow> bool" where
  "Preorder R = ((\<forall>d. R d d) \<and> (\<forall>a b c. R a b \<longrightarrow> R b c \<longrightarrow> R a c))"

subsection \<open>Example roots\<close>

definition NewFilter ::
  "string \<Rightarrow> nat option \<Rightarrow> BranchNames \<Rightarrow> BranchNames \<Rightarrow> (int list \<Rightarrow> bool option)
     \<Rightarrow> TDataFrameFilterBase" where
  "NewFilter name prev tmpbl bl f =
     \<lparr>fName = name, fPrevData = prev, fTmpBranches = tmpbl, fBranches = bl, fFilter = f,
      fLastCheckedEntry = [], fLastResult = [], fAccepted = [], fRejected = [], fCalls = []\<rparr>"

definition NewRoot :: "TTree \<Rightarrow> BranchNames \<Rightarrow> nat \<Rightarrow> TDataFrameImpl" where
  "NewRoot tree defaultBranches nSlots =
     \<lparr>fTree = tree, fDefaultBranches = defaultBranches, fNSlots = nSlots,
      fHasRunAtLeastOnce = False, fBookedActions = [], fBookedFilters = [],
      fBookedNamedFilters = [], fBookedBranches = [], fResProxyReadiness = [],
      readiness = [], results = [], passes = 0, throws = 0\<rparr>"

text \<open>A tree with one branch \<open>x\<close>, and the root after a temporary branch \<open>z\<close> is booked.\<close>

definition ExampleTree :: TTree where
  "ExampleTree = \<lparr>tBranches = [(''x'', [1, 2, 3])], tEntries = 3\<rparr>"

definition ExampleRoot :: TDataFrameImpl where
  "ExampleRoot = NewRoot ExampleTree [''x''] 1"

definition ExampleRootZ :: TDataFrameImpl where
  "ExampleRootZ = projr (AddCol ''z'' (\<lambda>vs. Some (hd vs + 1)) 1 [] [] ExampleRoot)"

text \<open>
  Scenario S3 of the spec: a source with \<open>A = [1, 2, 3]\<close>, the named filter \<open>gt1\<close>
  (\<open>A > 1\<close>), then the named filter \<open>lt3\<close> (\<open>A < 3\<close>), and a count downstream of both.
\<close>

definition CutflowTree :: TTree where
  "CutflowTree = \<lparr>tBranches = [(''A'', [1, 2, 3])], tEntries = 3\<rparr>"

definition CutflowBooked :: "TActionResultPtr \<times> TDataFrameImpl" where
  "CutflowBooked =
     BookResult (Some 1) [] [] (Counted 0)
       (BookFilter (NewFilter ''lt3'' (Some 0) [] [''A''] (\<lambda>vs. Some (hd vs < 3)))
          (BookFilter (NewFilter ''gt1'' None [] [''A''] (\<lambda>vs. Some (1 < hd vs)))
             (NewRoot CutflowTree [] 1)))"

text \<open>A filter booked with the empty string as its name, downstream of \<open>lt3\<close>.\<close>

definition UnnamedFilter :: TDataFrameFilterBase where
  "UnnamedFilter = NewFilter [] (Some 1) [] [''A''] (\<lambda>vs. Some (hd vs \<noteq> 2))"

text \<open>
  Scenario S2 of the spec with more consumers: a source with \<open>A = [1, 2, 3, 4, 5]\<close> and
  \<open>B = [5, 4, 3, 2, 1]\<close>, the derived column \<open>C = A + B\<close>, a filter \<open>C = 6\<close>, and downstream
  of the filter a take of \<open>A\<close>, a take of \<open>C\<close> and a count; the root has two slots.
\<close>

definition SharedTree :: TTree where
  "SharedTree =
     \<lparr>tBranches = [(''A'', [1, 2, 3, 4, 5]), (''B'', [5, 4, 3, 2, 1])], tEntries = 5\<rparr>"

definition SharedRoot :: TDataFrameImpl where
  "SharedRoot =
     snd (BookResult (Some 0) [''C''] [] (Counted 0)
       (snd (BookResult (Some 0) [''C''] [''C''] (Taken [])
         (snd (BookResult (Some 0) [''C''] [''A''] (Taken [])
           (BookFilter (NewFilter [] None [''C''] [''C''] (\<lambda>vs. Some (hd vs = 6)))
             (projr (AddCol ''C'' (\<lambda>vs. Some (sum_list vs)) 2 [''A'', ''B''] []
                (NewRoot SharedTree [] 2)))))))))"

text \<open>
  A tree with one entry, a named filter and a count; and the root after the count has been
  observed and a second count has been booked, downstream of the same filter.
\<close>

definition SingleTree :: TTree where
  "SingleTree = \<lparr>tBranches = [(''A'', [5])], tEntries = 1\<rparr>"

definition SingleBooked :: "TActionResultPtr \<times> TDataFrameImpl" where
  "SingleBooked =
     BookResult (Some 0) [] [] (Counted 0)
       (BookFilter (NewFilter ''pos'' None [] [''A''] (\<lambda>vs. Some (0 < hd vs)))
          (NewRoot SingleTree [] 1))"

definition SingleRebooked :: "TActionResultPtr \<times> TDataFrameImpl" where
  "SingleRebooked =
     BookResult (Some 0) [] [] (Counted 0)
       (snd (Get False [] (fst SingleBooked) (snd SingleBooked)))"

text \<open>
  Scenario S5 of the spec: a derived column \<open>D\<close> whose callable throws on entry 3, and a
  take of \<open>D\<close>.
\<close>

definition ThrowingTree :: TTree where
  "ThrowingTree = \<lparr>tBranches = [(''A'', [10, 20, 30, 40, 50])], tEntries = 5\<rparr>"

definition ThrowingBooked :: "TActionResultPtr \<times> TDataFrameImpl" where
  "ThrowingBooked =
     BookResult None [''D''] [''D''] (Taken [])
       (projr (AddCol ''D'' (\<lambda>vs. if hd vs = 40 then None else Some (hd vs + 1)) 1 [''A''] []
                 (NewRoot ThrowingTree [] 1)))"

section \<open>Properties\<close>

text \<open>
The definitions that the evaluation of a concrete root unfolds.
\<close>

lemmas run_unfold =
  Get_def ReportOf_def Report_def PrintReport_def Run_def RunLoop_def AfterLoop_def Publish_def
  MarkReady_def Finalise_def Merge_def Exec_def CallDepth_def CreateSlots_def
  FilterCreateSlots_def BranchCreateSlots_def ActionCreateSlots_def resize_def
  ProcessEntry_def ActionRun_def StorePartial_def CallFilter_def RecordRejected_def
  CallExpression_def ModifyFilter_def ModifyBranch_def ModifyAction_def ReadBranch_def
  GetBranch_def HasName_def BookResult_def BookFilter_def BookAction_def BookBranch_def
  AddCol_def CheckTmpBranch_def PickBranchNames_def NewFilter_def NewRoot_def
  CutflowBooked_def CutflowTree_def ThrowingBooked_def ThrowingTree_def UnnamedFilter_def
  InitialSlots_def AcquireSlot_def upt_rec Let_def

subsection \<open>Inputs of a node\<close>

text \<open>
Claim C6 as stated fails: with no explicit input list, a callable of one argument and a
default list of two names, the booking does not use the first name of the default list; it
throws the mismatch of 1 argument and 2 branches.
\<close>

theorem PickBranchNames_default_counterexample:
  "PickBranchNames 1 [] [''b1'', ''b2''] = Inl (ArgsMismatch 1 2)"
  by (simp add: PickBranchNames_def)

text \<open>
Claim C6, amended.  An explicit list, one that is not empty, is used when its size is the
arity, and the booking throws the mismatch when it is not.  With no explicit list, a
callable of no argument is given the empty list of inputs, whatever the default list
holds; a callable of one argument or more is given the default list, whole, when the size
of the default list is the arity, and the booking throws the mismatch when the default list
has fewer names or more names than the arity.  The five cases cover every booking.
\<close>

theorem PickBranchNames_cases:
  "(bl \<noteq> [] \<and> length bl = nArgs \<longrightarrow> PickBranchNames nArgs bl defBl = Inr bl) \<and>
   (bl \<noteq> [] \<and> length bl \<noteq> nArgs \<longrightarrow>
      PickBranchNames nArgs bl defBl = Inl (ArgsMismatch nArgs (length bl))) \<and>
   (bl = [] \<and> nArgs = 0 \<longrightarrow> PickBranchNames nArgs bl defBl = Inr []) \<and>
   (bl = [] \<and> 0 < nArgs \<and> length defBl = nArgs \<longrightarrow>
      PickBranchNames nArgs bl defBl = Inr defBl) \<and>
   (bl = [] \<and> 0 < nArgs \<and> length defBl \<noteq> nArgs \<longrightarrow>
      PickBranchNames nArgs bl defBl = Inl (ArgsMismatch nArgs (length defBl)))"
  by (auto simp: PickBranchNames_def)

theorem PickBranchNames_cases_witness:
  "PickBranchNames 2 [''a'', ''b''] [''b1''] = Inr [''a'', ''b''] \<and>
   PickBranchNames 2 [''a''] [''b1'', ''b2''] = Inl (ArgsMismatch 2 1) \<and>
   PickBranchNames 0 [''a''] [] = Inl (ArgsMismatch 0 1) \<and>
   PickBranchNames 0 [] [''b1'', ''b2''] = Inr [] \<and>
   PickBranchNames 2 [] [''b1'', ''b2''] = Inr [''b1'', ''b2''] \<and>
   PickBranchNames 2 [] [''b1''] = Inl (ArgsMismatch 2 1) \<and>
   PickBranchNames 1 [] [''b1'', ''b2'', ''b3''] = Inl (ArgsMismatch 1 3) \<and>
   PickBranchNames 1 [] [] = Inl (ArgsMismatch 1 0)"
  using PickBranchNames_cases [of "[''a'', ''b'']" 2 "[''b1'']"]
    PickBranchNames_cases [of "[''a'']" 2 "[''b1'', ''b2'']"]
    PickBranchNames_cases [of "[''a'']" 0 "[]"]
    PickBranchNames_cases [of "[]" 0 "[''b1'', ''b2'']"]
    PickBranchNames_cases [of "[]" 2 "[''b1'', ''b2'']"]
    PickBranchNames_cases [of "[]" 2 "[''b1'']"]
    PickBranchNames_cases [of "[]" 1 "[''b1'', ''b2'', ''b3'']"]
    PickBranchNames_cases [of "[]" 1 "[]"]
  by simp

subsection \<open>Names of temporary branches\<close>

text \<open>
Claim C5 as stated fails: with the temporary branch \<open>z\<close> booked, booking a second temporary
branch named \<open>z\<close> throws nothing; the new node takes the place of the first under the name.
\<close>

theorem AddCol_booked_name_counterexample:
  "map fst (fBookedBranches ExampleRootZ) = [''z''] \<and>
   \<not> isl (AddCol ''z'' (\<lambda>vs. Some (2 * hd vs)) 1 [] [] ExampleRootZ) \<and>
   map fst (fBookedBranches (projr (AddCol ''z'' (\<lambda>vs. Some (2 * hd vs)) 1 [] [] ExampleRootZ))) = [''z''] \<and>
   map (\<lambda>b. bExpression b [5]) (map snd (fBookedBranches (projr (AddCol ''z'' (\<lambda>vs. Some (2 * hd vs)) 1 [] [] ExampleRootZ)))) = [Some 10]"
  by (simp add: ExampleRootZ_def AddCol_def CheckTmpBranch_def GetBranch_def PickBranchNames_def
      BookBranch_def ExampleRoot_def ExampleTree_def NewRoot_def)

text \<open>
Claim C5, amended.  Booking a temporary branch throws the duplicate-name error whenever
the name is the name of a branch of the tree.  When it is not, and the inputs are picked,
the booking succeeds whether or not a temporary branch of that name was booked before: the
new node is stored under the name and no other name changes.
\<close>

theorem AddCol_duplicate_name:
  "(branch \<in> fst ` set (tBranches (fTree df)) \<longrightarrow>
      AddCol branch expression nArgs bl tmpbl df = Inl (BranchAlreadyPresent branch)) \<and>
   (branch \<notin> fst ` set (tBranches (fTree df)) \<and>
    PickBranchNames nArgs bl (fDefaultBranches df) = Inr actualBl \<longrightarrow>
      (\<exists>df'. AddCol branch expression nArgs bl tmpbl df = Inr df' \<and>
         map_option bExpression (map_of (fBookedBranches df') branch) = Some expression \<and>
         map_option bBranches (map_of (fBookedBranches df') branch) = Some actualBl \<and>
         (\<forall>other. other \<noteq> branch \<longrightarrow>
            map_of (fBookedBranches df') other = map_of (fBookedBranches df) other)))"
proof -
  have present: "branch \<in> fst ` set (tBranches (fTree df)) \<Longrightarrow>
      AddCol branch expression nArgs bl tmpbl df = Inl (BranchAlreadyPresent branch)"
  proof -
    assume "branch \<in> fst ` set (tBranches (fTree df))"
    then have "map_of (tBranches (fTree df)) branch \<noteq> None"
      by (simp add: map_of_eq_None_iff)
    then show ?thesis
      by (auto simp: AddCol_def CheckTmpBranch_def GetBranch_def)
  qed
  have absent: "branch \<notin> fst ` set (tBranches (fTree df)) \<Longrightarrow>
      CheckTmpBranch branch (fTree df) = Inr ()"
  proof -
    assume "branch \<notin> fst ` set (tBranches (fTree df))"
    then have "map_of (tBranches (fTree df)) branch = None"
      by (simp add: map_of_eq_None_iff)
    then show ?thesis
      by (simp add: CheckTmpBranch_def GetBranch_def)
  qed
  show ?thesis
    using present absent
    by (auto simp: AddCol_def BookBranch_def update_conv')
qed

theorem AddCol_duplicate_name_witness:
  "AddCol ''x'' (\<lambda>vs. Some 0) 0 [] [] ExampleRoot = Inl (BranchAlreadyPresent ''x'') \<and>
   (\<exists>df'. AddCol ''z'' (\<lambda>vs. Some 0) 0 [] [] ExampleRootZ = Inr df' \<and>
      map_option bExpression (map_of (fBookedBranches df') ''z'') = Some (\<lambda>vs. Some 0) \<and>
      map_option bBranches (map_of (fBookedBranches df') ''z'') = Some [] \<and>
      (\<forall>other. other \<noteq> ''z'' \<longrightarrow>
            map_of (fBookedBranches df') other = map_of (fBookedBranches ExampleRootZ) other))"
proof -
  have t: "fTree ExampleRootZ = ExampleTree" "fDefaultBranches ExampleRootZ = [''x'']"
    by (simp_all add: ExampleRootZ_def AddCol_def CheckTmpBranch_def GetBranch_def PickBranchNames_def
      BookBranch_def ExampleRoot_def ExampleTree_def NewRoot_def)
  have a: "''x'' \<in> fst ` set (tBranches (fTree ExampleRoot))"
    by (simp add: ExampleRoot_def ExampleTree_def NewRoot_def)
  have b: "''z'' \<notin> fst ` set (tBranches (fTree ExampleRootZ)) \<and>
    PickBranchNames 0 [] (fDefaultBranches ExampleRootZ) = Inr []"
    by (simp add: t ExampleTree_def PickBranchNames_def)
  show ?thesis
    using AddCol_duplicate_name [of "''x''" ExampleRoot "\<lambda>vs. Some 0" 0 "[]" "[]" "[]"] a
      AddCol_duplicate_name [of "''z''" ExampleRootZ "\<lambda>vs. Some 0" 0 "[]" "[]" "[]"] b
    by blast
qed

subsection \<open>The slot of a thread is its own\<close>















subsection \<open>What every evaluation keeps\<close>

lemma values_keep:
  assumes rrefl: "\<And>d. R d d"
    and rtrans: "\<And>a b c. R a b \<Longrightarrow> R b c \<Longrightarrow> R a c"
  shows "(\<And>d b c vs. R d (snd (CallExpression b c slot entry vs d))) \<Longrightarrow>
      R df (snd (GetTmpBranchValue k c slot entry df))"
    and "(\<And>d b c vs. R d (snd (CallExpression b c slot entry vs d))) \<Longrightarrow>
      R df (snd (ReadValues k cs tmpbl slot entry df))"
proof (induction k c slot entry df and k cs tmpbl slot entry df
    rule: GetTmpBranchValue_ReadValues.induct)
  case (1 branch slot entry df)
  then show ?case by (simp add: rrefl)
next
  case (2 k branch slot entry df)
  show ?case
    using "2.prems" "2.IH"
    by (auto simp: rrefl split: option.splits prod.splits sum.splits
        intro: rtrans [OF _ "2.prems"])
next
  case (3 k tmpbl slot entry df)
  then show ?case by (simp add: rrefl)
next
  case (4 k c cs tmpbl slot entry df)
  show ?case
    using "4.prems" "4.IH"
    by (auto simp: rrefl split: option.splits prod.splits sum.splits if_splits intro: rtrans)
qed

lemma ReadValues_keeps:
  assumes "Preorder R" and "Keeps R slot entry"
  shows "R df (snd (ReadValues k cs tmpbl slot entry df))"
  using assms values_keep(2) [of R slot entry df k cs tmpbl]
  unfolding Preorder_def Keeps_def by blast

lemma CheckFilters_keeps:
  assumes pre: "Preorder R"
  shows "Keeps R slot entry \<Longrightarrow> R df (snd (CheckFilters k p slot entry df))"
proof (induction k p slot entry df rule: CheckFilters.induct)
  case (1 k slot entry df)
  then show ?case using pre by (simp add: Preorder_def)
next
  case (2 i slot entry df)
  then show ?case using pre by (simp add: Preorder_def)
next
  case (3 k i slot entry df)
  have rrefl: "\<And>d. R d d" and rtrans: "\<And>a b c. R a b \<Longrightarrow> R b c \<Longrightarrow> R a c"
    using pre unfolding Preorder_def by blast+
  have rej: "\<And>d. R d (RecordRejected i slot entry d)"
    and call: "\<And>d f vs. R d (snd (CallFilter f i slot entry vs d))"
    using "3.prems" unfolding Keeps_def by blast+
  let ?f = "fBookedFilters df ! i"
  show ?case
  proof (cases "slot < length (fLastCheckedEntry ?f) \<and> slot < length (fLastResult ?f)
         \<and> slot < length (fAccepted ?f) \<and> slot < length (fRejected ?f)
         \<and> entry \<noteq> fLastCheckedEntry ?f ! slot")
    case False
    then show ?thesis by (auto simp: rrefl Let_def)
  next
    case True
    obtain r df1 where up: "CheckFilters k (fPrevData ?f) slot entry df = (r, df1)"
      by (cases "CheckFilters k (fPrevData ?f) slot entry df")
    have "R df (snd (CheckFilters k (fPrevData ?f) slot entry df))"
      using "3.IH" [OF HOL.refl] True "3.prems" by blast
    then have r1: "R df df1" using up by simp
    show ?thesis
    proof (cases r)
      case (Inl e)
      then show ?thesis using True up r1 by (simp add: Let_def)
    next
      case (Inr passedUp)
      show ?thesis
      proof (cases passedUp)
        case False
        then show ?thesis using True up Inr r1 rej rtrans by (auto simp add: Let_def)
      next
        case pu: True
        obtain r2 df2 where
          rv: "ReadValues k (fBranches ?f) (fTmpBranches ?f) slot entry df1 = (r2, df2)"
          by (cases "ReadValues k (fBranches ?f) (fTmpBranches ?f) slot entry df1")
        have "R df1 df2"
          using ReadValues_keeps [OF pre "3.prems", of df1 k "fBranches ?f" "fTmpBranches ?f"] rv
          by simp
        then have r2: "R df df2" using r1 rtrans by blast
        show ?thesis
        proof (cases r2)
          case (Inl e)
          then show ?thesis using True up Inr pu rv r2 by (simp add: Let_def)
        next
          case (Inr vs)
          have "R df (snd (CallFilter ?f i slot entry vs df2))"
            using r2 call rtrans by blast
          then show ?thesis using True up \<open>r = Inr passedUp\<close> pu rv Inr by (simp add: Let_def)
        qed
      qed
    qed
  qed
qed

lemma ActionRun_keeps:
  assumes pre: "Preorder R" and keeps: "Keeps R slot entry"
  shows "R df (snd (ActionRun k i slot entry df))"
proof -
  have rrefl: "\<And>d. R d d" and rtrans: "\<And>a b c. R a b \<Longrightarrow> R b c \<Longrightarrow> R a c"
    using pre unfolding Preorder_def by blast+
  let ?a = "fBookedActions df ! i"
  obtain r df1 where up: "CheckFilters k (aPrevData ?a) slot entry df = (r, df1)"
    by (cases "CheckFilters k (aPrevData ?a) slot entry df")
  have r1: "R df df1" using CheckFilters_keeps [OF pre keeps, of df k "aPrevData ?a"] up by simp
  obtain r2 df2 where rv: "ReadValues k (aBranches ?a) (aTmpBranches ?a) slot entry df1 = (r2, df2)"
    by (cases "ReadValues k (aBranches ?a) (aTmpBranches ?a) slot entry df1")
  have "R df1 df2"
    using ReadValues_keeps [OF pre keeps, of df1 k "aBranches ?a" "aTmpBranches ?a"] rv by simp
  then have r2: "R df df2" using r1 rtrans by blast
  have r3: "\<And>vs. R df (StorePartial i slot vs df2)"
    using r2 keeps rtrans unfolding Keeps_def by blast
  show ?thesis
    using up rv r1 r2 r3
    by (auto simp: ActionRun_def Let_def split: sum.splits bool.splits)
qed

lemma RunActions_keeps:
  assumes pre: "Preorder R" and keeps: "Keeps R slot entry"
  shows "R df (snd (RunActions k is slot entry df))"
proof (induction "is" arbitrary: df)
  case Nil
  then show ?case using pre by (simp add: Preorder_def)
next
  case (Cons i "is")
  obtain r df1 where a: "ActionRun k i slot entry df = (r, df1)"
    by (cases "ActionRun k i slot entry df")
  have "R df df1" using ActionRun_keeps [OF pre keeps, of df k i] a by simp
  then show ?case
    using a Cons [of df1] pre unfolding Preorder_def by (auto split: sum.splits)
qed

lemma CheckNamedFilters_keeps:
  assumes pre: "Preorder R" and keeps: "Keeps R slot entry"
  shows "R df (snd (CheckNamedFilters k is slot entry df))"
proof (induction "is" arbitrary: df)
  case Nil
  then show ?case using pre by (simp add: Preorder_def)
next
  case (Cons i "is")
  obtain r df1 where a: "CheckFilters k (Some i) slot entry df = (r, df1)"
    by (cases "CheckFilters k (Some i) slot entry df")
  have "R df df1" using CheckFilters_keeps [OF pre keeps, of df k "Some i"] a by simp
  then show ?case
    using a Cons [of df1] pre unfolding Preorder_def by (auto split: sum.splits)
qed

lemma ProcessEntry_keeps:
  assumes pre: "Preorder R" and keeps: "Keeps R slot entry"
  shows "R df (snd (ProcessEntry k slot entry df))"
proof -
  obtain r df1 where a: "RunActions k [0..<length (fBookedActions df)] slot entry df = (r, df1)"
    by (cases "RunActions k [0..<length (fBookedActions df)] slot entry df")
  have "R df df1"
    using RunActions_keeps [OF pre keeps, of df k "[0..<length (fBookedActions df)]"] a by simp
  moreover have "R df1 (snd (CheckNamedFilters k (fBookedNamedFilters df1) slot entry df1))"
    by (rule CheckNamedFilters_keeps [OF pre keeps])
  ultimately show ?thesis
    using a pre unfolding Preorder_def ProcessEntry_def by (auto split: sum.splits)
qed

lemma EventLoop_keeps:
  assumes pre: "Preorder R" and keeps: "\<And>entry. entry \<in> set entries \<Longrightarrow> Keeps R slot entry"
  shows "R df (snd (EventLoop k slot entries df))"
  using keeps
proof (induction entries arbitrary: df)
  case Nil
  then show ?case using pre by (simp add: Preorder_def)
next
  case (Cons e entries)
  obtain r df1 where a: "ProcessEntry k slot e df = (r, df1)"
    by (cases "ProcessEntry k slot e df")
  have "R df df1" using ProcessEntry_keeps [OF pre, of slot e df k] Cons.prems a by simp
  moreover have "R df1 (snd (EventLoop k slot entries df1))"
    using Cons by simp
  ultimately show ?case
    using a pre unfolding Preorder_def by (auto split: sum.splits)
qed

lemma Process_keeps:
  assumes pre: "Preorder R" and keeps: "\<And>slot entry. Keeps R slot entry"
  shows "R df (snd (Process k tasks s df))"
proof (induction tasks arbitrary: s df)
  case Nil
  then show ?case using pre by (simp add: Preorder_def)
next
  case (Cons task tasks)
  obtain t entries where task: "task = (t, entries)" by (cases task)
  obtain slot s' where acq: "AcquireSlot t s = (slot, s')" by (cases "AcquireSlot t s")
  obtain r df1 where a: "EventLoop k slot entries df = (r, df1)"
    by (cases "EventLoop k slot entries df")
  have "R df df1" using EventLoop_keeps [OF pre, of entries slot df k] keeps a by simp
  moreover have "R df1 (snd (Process k tasks s' df1))" using Cons by simp
  ultimately show ?case
    using task acq a pre unfolding Preorder_def by (auto split: sum.splits)
qed

subsection \<open>The booking survives the event loop\<close>

lemma Preorder_SameBooking: "Preorder SameBooking"
  by (simp add: Preorder_def SameBooking_def)

lemma map_list_update_same:
  "g y = g (xs ! i) \<Longrightarrow> map g (xs[i := y]) = map g xs"
  by (cases "i < length xs") (simp_all add: map_update list_update_same_conv list_update_beyond)

lemma map_map_entry_same:
  "(\<And>b. h (g b) = h b) \<Longrightarrow>
   map (\<lambda>(n, b). (n, h b)) (AList.map_entry k g xs) = map (\<lambda>(n, b). (n, h b)) xs"
  by (induction xs) auto

lemma SameBooking_ModifyFilter:
  "FilterShape (g (fBookedFilters df ! i)) = FilterShape (fBookedFilters df ! i) \<Longrightarrow>
   SameBooking df (ModifyFilter i g df)"
  by (simp add: SameBooking_def ModifyFilter_def map_list_update_same)

lemma SameBooking_ModifyBranch:
  "(\<And>b. BranchShape (g b) = BranchShape b) \<Longrightarrow> SameBooking df (ModifyBranch c g df)"
  by (simp add: SameBooking_def ModifyBranch_def map_map_entry_same)

lemma SameBooking_ModifyAction:
  "ActionShape (g (fBookedActions df ! i)) = ActionShape (fBookedActions df ! i) \<Longrightarrow>
   SameBooking df (ModifyAction i g df)"
  by (simp add: SameBooking_def ModifyAction_def map_list_update_same)

lemma SameBooking_trans: "SameBooking a b \<Longrightarrow> SameBooking b c \<Longrightarrow> SameBooking a c"
  by (simp add: SameBooking_def)

lemma SameBooking_throws [simp]: "SameBooking d (d'\<lparr>throws := n\<rparr>) = SameBooking d d'"
  by (simp add: SameBooking_def)

lemma Keeps_SameBooking: "Keeps SameBooking slot entry"
proof -
  have a: "\<And>d b c vs. SameBooking d (snd (CallExpression b c slot entry vs d))"
    by (auto simp: CallExpression_def Let_def BranchShape_def split: option.splits
        intro!: SameBooking_ModifyBranch SameBooking_trans [OF SameBooking_ModifyBranch SameBooking_ModifyBranch])
  have b: "\<And>d i. SameBooking d (RecordRejected i slot entry d)"
    by (simp add: RecordRejected_def SameBooking_ModifyFilter FilterShape_def)
  have c: "\<And>d f i vs. SameBooking d (snd (CallFilter f i slot entry vs d))"
    by (auto simp: CallFilter_def Let_def FilterShape_def split: option.splits
        intro!: SameBooking_ModifyFilter SameBooking_trans [OF SameBooking_ModifyFilter SameBooking_ModifyFilter])
  have d: "\<And>d i vs. SameBooking d (StorePartial i slot vs d)"
    by (simp add: StorePartial_def SameBooking_ModifyAction ActionShape_def)
  show ?thesis unfolding Keeps_def using a b c d by blast
qed

lemma SameBooking_CreateSlots: "SameBooking df (CreateSlots n df)"
  by (simp add: SameBooking_def CreateSlots_def ActionCreateSlots_def FilterCreateSlots_def
      BranchCreateSlots_def FilterShape_def BranchShape_def ActionShape_def comp_def
      case_prod_unfold)

lemma RunLoop_SameBooking:
  "SameBooking (df\<lparr>passes := passes df + 1\<rparr>) (snd (RunLoop imt tasks df))"
proof -
  let ?df = "df\<lparr>passes := passes df + 1\<rparr>"
  have a: "\<And>n k s. SameBooking ?df (snd (Process k tasks s (CreateSlots n ?df)))"
    using Process_keeps [OF Preorder_SameBooking Keeps_SameBooking] SameBooking_CreateSlots
      SameBooking_trans by blast
  have b: "\<And>n k slot es. SameBooking ?df (snd (EventLoop k slot es (CreateSlots n ?df)))"
    using EventLoop_keeps [OF Preorder_SameBooking Keeps_SameBooking] SameBooking_CreateSlots
      SameBooking_trans by blast
  show ?thesis using a b by (simp add: RunLoop_def Let_def)
qed

lemma RunLoop_fields:
  "fBookedNamedFilters (snd (RunLoop imt tasks df)) = fBookedNamedFilters df"
  "fResProxyReadiness (snd (RunLoop imt tasks df)) = fResProxyReadiness df"
  "readiness (snd (RunLoop imt tasks df)) = readiness df"
  "results (snd (RunLoop imt tasks df)) = results df"
  "fHasRunAtLeastOnce (snd (RunLoop imt tasks df)) = fHasRunAtLeastOnce df"
  "passes (snd (RunLoop imt tasks df)) = passes df + 1"
  "map ActionShape (fBookedActions (snd (RunLoop imt tasks df))) = map ActionShape (fBookedActions df)"
  "map FilterShape (fBookedFilters (snd (RunLoop imt tasks df))) = map FilterShape (fBookedFilters df)"
  "map (\<lambda>(n, b). (n, BranchShape b)) (fBookedBranches (snd (RunLoop imt tasks df))) =
     map (\<lambda>(n, b). (n, BranchShape b)) (fBookedBranches df)"
  using RunLoop_SameBooking [of df imt tasks] by (simp_all add: SameBooking_def)

subsection \<open>The exceptions of the callables\<close>

lemma Thrown_value: "r \<noteq> Inl UserCallableFailure \<Longrightarrow> Thrown df (r, df)"
  by (simp add: Thrown_def)


lemma Thrown_write: "Thrown df (Inr v, df1) \<Longrightarrow> throws df2 = throws df1 \<Longrightarrow> Thrown df (Inr w, df2)"
  by (simp add: Thrown_def)

lemma throws_writes [simp]:
  "throws (ModifyBranch c g df) = throws df"
  "throws (ModifyFilter i h df) = throws df"
  "throws (ModifyAction i a df) = throws df"
  "throws (RecordRejected i slot entry df) = throws df"
  "throws (StorePartial i slot vs df) = throws df"
  by (simp_all add: ModifyBranch_def ModifyFilter_def ModifyAction_def RecordRejected_def
      StorePartial_def)













subsection \<open>The end of a pass\<close>

lemma MarkReady_length [simp]: "length (MarkReady ptrs flags) = length flags"
  unfolding MarkReady_def by (induction ptrs arbitrary: flags) simp_all

lemma MarkReady_other: "p \<notin> set ptrs \<Longrightarrow> MarkReady ptrs flags ! p = flags ! p"
  unfolding MarkReady_def by (induction ptrs arbitrary: flags) simp_all

lemma MarkReady_stays: "p < length flags \<Longrightarrow> flags ! p \<Longrightarrow> MarkReady ptrs flags ! p"
  unfolding MarkReady_def
proof (induction ptrs arbitrary: flags)
  case Nil
  then show ?case by simp
next
  case (Cons q ptrs)
  have "(flags[q := True]) ! p" using Cons.prems
    by (cases "q < length flags") (auto simp: nth_list_update list_update_beyond)
  then show ?case using Cons.IH [of "flags[q := True]"] Cons.prems by simp
qed

lemma MarkReady_set: "p \<in> set ptrs \<Longrightarrow> p < length flags \<Longrightarrow> MarkReady ptrs flags ! p"
proof (induction ptrs arbitrary: flags)
  case Nil
  then show ?case by simp
next
  case (Cons q ptrs)
  show ?case
  proof (cases "p = q")
    case True
    have "MarkReady ptrs (flags[q := True]) ! p"
      using True Cons.prems by (intro MarkReady_stays) simp_all
    then show ?thesis by (simp add: MarkReady_def)
  next
    case False
    then have "MarkReady ptrs (flags[q := True]) ! p"
      using Cons by simp
    then show ?thesis by (simp add: MarkReady_def)
  qed
qed

lemma Run_Inr:
  "Run imt tasks df = (Inr u, df') \<Longrightarrow>
   fst (RunLoop imt tasks df) = Inr () \<and> df' = AfterLoop (snd (RunLoop imt tasks df))"
  by (auto simp: Run_def split: prod.splits sum.splits)


lemma passes_run: "passes (snd (Run imt tasks df)) = passes df + 1"
  using RunLoop_fields(6) [of imt tasks df]
  by (auto simp: Run_def AfterLoop_def split: prod.splits sum.splits)

lemma Run_returned:
  assumes "Run imt tasks df = (Inr u, df')"
  shows "fHasRunAtLeastOnce df'"
    and "p \<in> set (fResProxyReadiness df) \<Longrightarrow> p < length (readiness df) \<Longrightarrow> readiness df' ! p"
    and "fBookedNamedFilters df' = fBookedNamedFilters df"
    and "map FilterShape (fBookedFilters df') = map FilterShape (fBookedFilters df)"
proof -
  have df': "df' = AfterLoop (snd (RunLoop imt tasks df))" using Run_Inr [OF assms] by simp
  show "fHasRunAtLeastOnce df'" "fBookedNamedFilters df' = fBookedNamedFilters df"
    "map FilterShape (fBookedFilters df') = map FilterShape (fBookedFilters df)"
    by (simp_all add: df' AfterLoop_def RunLoop_fields)
  show "p \<in> set (fResProxyReadiness df) \<Longrightarrow> p < length (readiness df) \<Longrightarrow> readiness df' ! p"
    by (simp add: df' AfterLoop_def RunLoop_fields MarkReady_set)
qed

text \<open>
Claim C8.  When \<^verbatim>\<open>Run\<close> returns, the list of booked actions is empty, every readiness flag
that the root held is true and the root holds none any more, and the has-run flag is true;
the booked filters and temporary branches, with their counters and caches, are those the
event loop left, the nodes are those that were booked, and the list of named filters is
as it was.
\<close>

theorem Run_completed:
  assumes "Run imtEnabled tasks df = (Inr u, df')"
  shows "fBookedActions df' = [] \<and> fResProxyReadiness df' = [] \<and>
    length (readiness df') = length (readiness df) \<and>
    (\<forall>p \<in> set (fResProxyReadiness df). p < length (readiness df) \<longrightarrow> readiness df' ! p) \<and>
    fHasRunAtLeastOnce df' \<and>
    fBookedNamedFilters df' = fBookedNamedFilters df \<and>
    fBookedFilters df' = fBookedFilters (snd (RunLoop imtEnabled tasks df)) \<and>
    fBookedBranches df' = fBookedBranches (snd (RunLoop imtEnabled tasks df)) \<and>
    map FilterShape (fBookedFilters df') = map FilterShape (fBookedFilters df) \<and>
    map (\<lambda>(n, b). (n, BranchShape b)) (fBookedBranches df') =
      map (\<lambda>(n, b). (n, BranchShape b)) (fBookedBranches df)"
proof -
  let ?l = "snd (RunLoop imtEnabled tasks df)"
  have df': "df' = AfterLoop ?l" using Run_Inr [OF assms] by simp
  have ready: "\<forall>p \<in> set (fResProxyReadiness df). p < length (readiness df) \<longrightarrow> readiness df' ! p"
    by (simp add: df' AfterLoop_def RunLoop_fields MarkReady_set)
  show ?thesis
    using ready by (simp add: df' AfterLoop_def RunLoop_fields)
qed

theorem Run_completed_witness:
  "fst (Run False [] (snd CutflowBooked)) = Inr () \<and>
   fBookedActions (snd (Run False [] (snd CutflowBooked))) = [] \<and>
   fResProxyReadiness (snd (Run False [] (snd CutflowBooked))) = [] \<and>
   readiness (snd (Run False [] (snd CutflowBooked))) = [True] \<and>
   fHasRunAtLeastOnce (snd (Run False [] (snd CutflowBooked))) \<and>
   map fAccepted (fBookedFilters (snd (Run False [] (snd CutflowBooked)))) = [[2], [1]] \<and>
   map fRejected (fBookedFilters (snd (Run False [] (snd CutflowBooked)))) = [[1], [1]]"
proof -
  have ok: "fst (Run False [] (snd CutflowBooked)) = Inr ()"
    by (simp add: run_unfold)
  then have run: "Run False [] (snd CutflowBooked) = (Inr (), snd (Run False [] (snd CutflowBooked)))"
    by (metis prod.collapse)
  have a: "fBookedActions (snd (Run False [] (snd CutflowBooked))) = [] \<and>
     fResProxyReadiness (snd (Run False [] (snd CutflowBooked))) = [] \<and>
     fHasRunAtLeastOnce (snd (Run False [] (snd CutflowBooked)))"
    using Run_completed [OF run] by blast
  have b: "readiness (snd (Run False [] (snd CutflowBooked))) = [True]"
    "map fAccepted (fBookedFilters (snd (Run False [] (snd CutflowBooked)))) = [[2], [1]]"
    "map fRejected (fBookedFilters (snd (Run False [] (snd CutflowBooked)))) = [[1], [1]]"
    by (simp_all add: run_unfold)
  show ?thesis using ok a b by simp
qed



lemma Get_ready:
  "readiness df ! fReadiness h \<Longrightarrow> Get imt tasks h df = (Inr (results df ! fObjPtr h), df)"
  by (simp add: Get_def)

text \<open>
Claim C1.  Observing a handle that is not ready runs one pass.  When the observation
returns a value, every later observation of the handle returns the same value and leaves
the root as it is, so that no pass is run again.  When a report returns its lines, every
later report returns the same lines and leaves the root as it is.
\<close>

theorem Get_runs_once:
  "(fReadiness h \<in> set (fResProxyReadiness df) \<and> fReadiness h < length (readiness df) \<and>
    \<not> readiness df ! fReadiness h \<longrightarrow>
      passes (snd (Get imtEnabled tasks h df)) = passes df + 1 \<and>
      (\<forall>v df'. Get imtEnabled tasks h df = (Inr v, df') \<longrightarrow>
         Get imtEnabled' tasks' h df' = (Inr v, df'))) \<and>
   (\<forall>lines df'. ReportOf imtEnabled tasks df = (Inr lines, df') \<longrightarrow>
      ReportOf imtEnabled' tasks' df' = (Inr lines, df'))"
proof -
  have passes_run: "passes (snd (Run imtEnabled tasks df)) = passes df + 1"
    using RunLoop_fields(6) [of imtEnabled tasks df]
    by (auto simp: Run_def AfterLoop_def split: prod.splits sum.splits)
  have get: "passes (snd (Get imtEnabled tasks h df)) = passes df + 1 \<and>
      (\<forall>v df'. Get imtEnabled tasks h df = (Inr v, df') \<longrightarrow>
         Get imtEnabled' tasks' h df' = (Inr v, df'))"
    if reg: "fReadiness h \<in> set (fResProxyReadiness df)"
      and len: "fReadiness h < length (readiness df)"
      and unready: "\<not> readiness df ! fReadiness h"
  proof -
    have p: "passes (snd (Get imtEnabled tasks h df)) = passes df + 1"
      using passes_run unready by (auto simp: Get_def split: prod.splits sum.splits)
    have again: "Get imtEnabled' tasks' h df' = (Inr v, df')"
      if g: "Get imtEnabled tasks h df = (Inr v, df')" for v df'
    proof -
      obtain u where run: "Run imtEnabled tasks df = (Inr u, df')" and v: "v = results df' ! fObjPtr h"
        using g unready by (auto simp: Get_def split: prod.splits sum.splits)
      have "readiness df' ! fReadiness h"
        using Run_returned(2) [OF run reg len] .
      then show ?thesis using v by (simp add: Get_ready)
    qed
    show ?thesis using p again by blast
  qed
  have report: "ReportOf imtEnabled' tasks' df' = (Inr lines, df')"
    if r: "ReportOf imtEnabled tasks df = (Inr lines, df')" for lines df'
  proof (cases "fHasRunAtLeastOnce df")
    case True
    then show ?thesis using r by (auto simp: ReportOf_def)
  next
    case False
    then obtain u where run: "Run imtEnabled tasks df = (Inr u, df')" and l: "lines = Report df'"
      using r by (auto simp: ReportOf_def split: prod.splits sum.splits)
    have "fHasRunAtLeastOnce df'" using Run_returned(1) [OF run] .
    then show ?thesis using l by (simp add: ReportOf_def)
  qed
  show ?thesis using get report by blast
qed

theorem Get_runs_once_witness:
  "fst (Get False [] (fst CutflowBooked) (snd CutflowBooked)) = Inr (Counted 1) \<and>
   passes (snd (Get False [] (fst CutflowBooked) (snd CutflowBooked))) = 1 \<and>
   Get True [] (fst CutflowBooked) (snd (Get False [] (fst CutflowBooked) (snd CutflowBooked))) =
     (Inr (Counted 1), snd (Get False [] (fst CutflowBooked) (snd CutflowBooked))) \<and>
   ReportOf True [] (snd (ReportOf False [] (snd CutflowBooked))) =
     ReportOf False [] (snd CutflowBooked)"
proof -
  let ?h = "fst CutflowBooked" and ?df = "snd CutflowBooked"
  have pre: "fReadiness ?h \<in> set (fResProxyReadiness ?df) \<and> fReadiness ?h < length (readiness ?df) \<and>
    \<not> readiness ?df ! fReadiness ?h" "passes ?df = 0"
    by (simp_all add: run_unfold)
  have v: "fst (Get False [] ?h ?df) = Inr (Counted 1)"
    by (simp add: run_unfold)
  then have g: "Get False [] ?h ?df = (Inr (Counted 1), snd (Get False [] ?h ?df))"
    by (metis prod.collapse)
  have r: "isl (fst (ReportOf False [] ?df)) = False"
    by (simp add: run_unfold)
  then have rr: "ReportOf False [] ?df = (Inr (projr (fst (ReportOf False [] ?df))), snd (ReportOf False [] ?df))"
    by (metis prod.collapse sum.collapse(2))
  have a: "passes (snd (Get False [] ?h ?df)) = passes ?df + 1 \<and>
      Get True [] ?h (snd (Get False [] ?h ?df)) = (Inr (Counted 1), snd (Get False [] ?h ?df)) \<and>
      ReportOf True [] (snd (ReportOf False [] ?df)) =
        (Inr (projr (fst (ReportOf False [] ?df))), snd (ReportOf False [] ?df))"
    using Get_runs_once [of ?h ?df False "[]" True "[]"] pre(1) g rr by blast
  show ?thesis using v a pre(2) rr by simp
qed

subsection \<open>The cutflow report\<close>

lemma nth_filter_positions:
  "map ((!) xs) (filter (\<lambda>i. P (xs ! i)) [0..<length xs]) = filter P xs"
proof (induction xs rule: rev_induct)
  case Nil
  then show ?case by simp
next
  case (snoc x xs)
  have "filter (\<lambda>i. P ((xs @ [x]) ! i)) [0..<length xs] = filter (\<lambda>i. P (xs ! i)) [0..<length xs]"
    by (rule filter_cong) (auto simp: nth_append)
  moreover have "map ((!) (xs @ [x])) (filter (\<lambda>i. P (xs ! i)) [0..<length xs])
      = map ((!) xs) (filter (\<lambda>i. P (xs ! i)) [0..<length xs])"
    by (rule map_cong) (auto simp: nth_append)
  ultimately show ?case using snoc by simp
qed

lemma NamedInOrder_valid: "NamedInOrder df \<Longrightarrow> i \<in> set (fBookedNamedFilters df) \<Longrightarrow> i < length (fBookedFilters df)"
  by (auto simp: NamedInOrder_def)

lemma NamedInOrder_BookFilter: "NamedInOrder df \<Longrightarrow> NamedInOrder (BookFilter f df)"
proof -
  assume a: "NamedInOrder df"
  let ?xs = "fBookedFilters df"
  have "filter (\<lambda>i. HasName ((?xs @ [f]) ! i)) [0..<length ?xs] = filter (\<lambda>i. HasName (?xs ! i)) [0..<length ?xs]"
    by (rule filter_cong) (auto simp: nth_append)
  then show ?thesis using a by (simp add: NamedInOrder_def BookFilter_def Let_def)
qed

lemma Report_names:
  assumes "NamedInOrder df"
  shows "map rName (Report df) = filter (\<lambda>n. n \<noteq> []) (map fName (fBookedFilters df))"
proof -
  let ?xs = "fBookedFilters df"
  have "map rName (Report df) = map fName (map ((!) ?xs) (fBookedNamedFilters df))"
    by (simp add: Report_def PrintReport_def Let_def comp_def)
  also have "\<dots> = map fName (filter HasName ?xs)"
    using assms nth_filter_positions [of ?xs HasName] by (simp add: NamedInOrder_def)
  also have "\<dots> = filter (\<lambda>n. n \<noteq> []) (map fName ?xs)"
  proof -
    have "HasName = (\<lambda>x. fName x \<noteq> [])" by (auto simp: HasName_def)
    then show ?thesis by (simp add: filter_map comp_def)
  qed
  finally show ?thesis .
qed

lemma Report_BookFilter_unnamed:
  assumes "NamedInOrder df" "fName f = []"
  shows "Report (BookFilter f df) = Report df"
proof -
  have "\<And>i. i \<in> set (fBookedNamedFilters df) \<Longrightarrow> (fBookedFilters df @ [f]) ! i = fBookedFilters df ! i"
    using NamedInOrder_valid [OF assms(1)] by (simp add: nth_append)
  then show ?thesis using assms(2) by (simp add: Report_def BookFilter_def HasName_def)
qed

lemma ReportOf_Report:
  assumes "ReportOf imt tasks df = (Inr lines, df')"
  shows "lines = Report df' \<and> fBookedNamedFilters df' = fBookedNamedFilters df \<and>
     map FilterShape (fBookedFilters df') = map FilterShape (fBookedFilters df)"
proof (cases "fHasRunAtLeastOnce df")
  case True
  then show ?thesis using assms by (auto simp: ReportOf_def)
next
  case False
  then obtain u where run: "Run imt tasks df = (Inr u, df')" and l: "lines = Report df'"
    using assms by (auto simp: ReportOf_def split: prod.splits sum.splits)
  show ?thesis using Run_returned(3,4) [OF run] l by blast
qed

lemma NamedInOrder_shape:
  assumes "NamedInOrder df" "fBookedNamedFilters df' = fBookedNamedFilters df"
    "map FilterShape (fBookedFilters df') = map FilterShape (fBookedFilters df)"
  shows "NamedInOrder df'"
proof -
  have len: "length (fBookedFilters df') = length (fBookedFilters df)"
    using assms(3) by (rule map_eq_imp_length_eq)
  have "\<And>i. i < length (fBookedFilters df) \<Longrightarrow>
      FilterShape (fBookedFilters df' ! i) = FilterShape (fBookedFilters df ! i)"
    using assms(3) len by (metis nth_map)
  then have "\<And>i. i < length (fBookedFilters df) \<Longrightarrow>
      HasName (fBookedFilters df' ! i) = HasName (fBookedFilters df ! i)"
    by (simp add: FilterShape_def HasName_def)
  then have "filter (\<lambda>i. HasName (fBookedFilters df' ! i)) [0..<length (fBookedFilters df)]
     = filter (\<lambda>i. HasName (fBookedFilters df ! i)) [0..<length (fBookedFilters df)]"
    by (intro filter_cong) auto
  then show ?thesis using assms(1,2) len by (simp add: NamedInOrder_def)
qed

text \<open>
Claim C10.  A filter booked with the empty string as its name has no name: it is appended
to the list of booked filters and not to the list of named filters, and the report is what
it was before the booking.  From a new root on, the named filters are the filters booked
with a name that is not empty, in the order of booking, and these are the names of the
lines of the report, before and after a pass.
\<close>

theorem unnamed_filter_not_reported:
  "NamedInOrder (NewRoot tree defaultBranches nSlots) \<and>
   (NamedInOrder df \<longrightarrow>
      NamedInOrder (BookFilter f df) \<and> NamedInOrder (BookAction a df) \<and>
      NamedInOrder (BookBranch b df) \<and>
      fBookedFilters (BookFilter f df) = fBookedFilters df @ [f] \<and>
      (fName f = [] \<longrightarrow>
         \<not> HasName f \<and> fBookedNamedFilters (BookFilter f df) = fBookedNamedFilters df \<and>
         Report (BookFilter f df) = Report df) \<and>
      map rName (Report df) = filter (\<lambda>n. n \<noteq> []) (map fName (fBookedFilters df)) \<and>
      (\<forall>lines df'. ReportOf imtEnabled tasks df = (Inr lines, df') \<longrightarrow>
         map rName lines = filter (\<lambda>n. n \<noteq> []) (map fName (fBookedFilters df))))"
proof -
  have new: "NamedInOrder (NewRoot tree defaultBranches nSlots)"
    by (simp add: NamedInOrder_def NewRoot_def)
  have rest: "NamedInOrder (BookFilter f df) \<and> NamedInOrder (BookAction a df) \<and>
      NamedInOrder (BookBranch b df) \<and>
      fBookedFilters (BookFilter f df) = fBookedFilters df @ [f] \<and>
      (fName f = [] \<longrightarrow>
         \<not> HasName f \<and> fBookedNamedFilters (BookFilter f df) = fBookedNamedFilters df \<and>
         Report (BookFilter f df) = Report df) \<and>
      map rName (Report df) = filter (\<lambda>n. n \<noteq> []) (map fName (fBookedFilters df)) \<and>
      (\<forall>lines df'. ReportOf imtEnabled tasks df = (Inr lines, df') \<longrightarrow>
         map rName lines = filter (\<lambda>n. n \<noteq> []) (map fName (fBookedFilters df)))"
    if inv: "NamedInOrder df"
  proof -
    have 1: "NamedInOrder (BookFilter f df)" by (rule NamedInOrder_BookFilter [OF inv])
    have 2: "NamedInOrder (BookAction a df)" "NamedInOrder (BookBranch b df)"
      using inv by (simp_all add: NamedInOrder_def BookAction_def BookBranch_def)
    have 3: "fBookedFilters (BookFilter f df) = fBookedFilters df @ [f]"
      by (simp add: BookFilter_def Let_def)
    have 4: "fName f = [] \<longrightarrow>
         \<not> HasName f \<and> fBookedNamedFilters (BookFilter f df) = fBookedNamedFilters df \<and>
         Report (BookFilter f df) = Report df"
      using Report_BookFilter_unnamed [OF inv] by (simp add: HasName_def BookFilter_def)
    have 5: "map rName (Report df) = filter (\<lambda>n. n \<noteq> []) (map fName (fBookedFilters df))"
      by (rule Report_names [OF inv])
    have 6: "map rName lines = filter (\<lambda>n. n \<noteq> []) (map fName (fBookedFilters df))"
      if r: "ReportOf imtEnabled tasks df = (Inr lines, df')" for lines df'
    proof -
      have l: "lines = Report df'" and n: "fBookedNamedFilters df' = fBookedNamedFilters df"
        and s: "map FilterShape (fBookedFilters df') = map FilterShape (fBookedFilters df)"
        using ReportOf_Report [OF r] by blast+
      have "map fName (fBookedFilters df') = map fName (fBookedFilters df)"
      proof -
        have "map (fst \<circ> FilterShape) (fBookedFilters df') = map (fst \<circ> FilterShape) (fBookedFilters df)"
          using s by (metis map_map)
        moreover have "fst \<circ> FilterShape = fName" by (auto simp: FilterShape_def)
        ultimately show ?thesis by simp
      qed
      then show ?thesis
        using Report_names [OF NamedInOrder_shape [OF inv n s]] l by simp
    qed
    show ?thesis using 1 2 3 4 5 6 by blast
  qed
  show ?thesis using new rest by blast
qed

theorem unnamed_filter_not_reported_witness:
  "NamedInOrder (snd CutflowBooked) \<and> \<not> HasName UnnamedFilter \<and>
   fBookedNamedFilters (BookFilter UnnamedFilter (snd CutflowBooked)) = [0, 1] \<and>
   map fName (fBookedFilters (BookFilter UnnamedFilter (snd CutflowBooked))) = [''gt1'', ''lt3'', []] \<and>
   Report (BookFilter UnnamedFilter (snd CutflowBooked)) = Report (snd CutflowBooked) \<and>
   map rName (Report (snd CutflowBooked)) = [''gt1'', ''lt3''] \<and>
   map rName (projr (fst (ReportOf False [] (BookFilter UnnamedFilter (snd CutflowBooked))))) = [''gt1'', ''lt3'']"
proof -
  have inv: "NamedInOrder (snd CutflowBooked)"
    by (simp add: NamedInOrder_def run_unfold)
  have name: "fName UnnamedFilter = []" by (simp add: UnnamedFilter_def NewFilter_def)
  have a: "\<not> HasName UnnamedFilter \<and>
      Report (BookFilter UnnamedFilter (snd CutflowBooked)) = Report (snd CutflowBooked)"
    using unnamed_filter_not_reported [of CutflowTree "[]" 1 "snd CutflowBooked" UnnamedFilter]
      inv name by blast
  have b: "fBookedNamedFilters (BookFilter UnnamedFilter (snd CutflowBooked)) = [0, 1]"
    "map fName (fBookedFilters (BookFilter UnnamedFilter (snd CutflowBooked))) = [''gt1'', ''lt3'', []]"
    "map rName (Report (snd CutflowBooked)) = [''gt1'', ''lt3'']"
    by (simp_all add: run_unfold)
  have c: "map rName (projr (fst (ReportOf False [] (BookFilter UnnamedFilter (snd CutflowBooked))))) = [''gt1'', ''lt3'']"
    by (simp add: run_unfold)
  show ?thesis using inv a b c by simp
qed

text \<open>
Claim C3.  A report runs a pass if none has run, and no pass otherwise.  \<open>Book\<close> appends a
filter to the list of booked filters, so that the list is in the order of booking; the
named filters of a new root are in order, and every booking keeps them so.  The lines of
the report are then, in the order of booking, one for every filter whose name is not empty
and none for any other filter: the name, the accepted entries summed over the slots, the
accepted and rejected entries summed over the slots, and the percentage, which is accepted
over all times 100 when all is positive and 0 otherwise.  The pass leaves the names and the
order of the filters as they were.
\<close>

theorem report_lines:
  "passes (snd (ReportOf imtEnabled tasks df)) =
     (if fHasRunAtLeastOnce df then passes df else passes df + 1) \<and>
   NamedInOrder (NewRoot tree defaultBranches nSlots) \<and>
   (NamedInOrder df \<longrightarrow>
      NamedInOrder (BookFilter f df) \<and> NamedInOrder (BookAction a df) \<and>
      NamedInOrder (BookBranch b df) \<and>
      fBookedFilters (BookFilter f df) = fBookedFilters df @ [f] \<and>
      (\<forall>lines df'. ReportOf imtEnabled tasks df = (Inr lines, df') \<longrightarrow>
         NamedInOrder df' \<and>
         map fName (fBookedFilters df') = map fName (fBookedFilters df) \<and>
         lines =
           map (\<lambda>f. let accepted = sum_list (fAccepted f);
                       all = accepted + sum_list (fRejected f)
                   in \<lparr>rName = fName f, rAccepted = accepted, rAll = all,
                       rPerc = (if 0 < all then real accepted / real all * 100 else 0)\<rparr>)
             (filter (\<lambda>f. fName f \<noteq> []) (fBookedFilters df'))))"
proof -
  have passes_run: "passes (snd (Run imtEnabled tasks df)) = passes df + 1"
    using RunLoop_fields(6) [of imtEnabled tasks df]
    by (auto simp: Run_def AfterLoop_def split: prod.splits sum.splits)
  have p: "passes (snd (ReportOf imtEnabled tasks df)) =
     (if fHasRunAtLeastOnce df then passes df else passes df + 1)"
    using passes_run by (auto simp: ReportOf_def split: prod.splits sum.splits)
  have new: "NamedInOrder (NewRoot tree defaultBranches nSlots)"
    by (simp add: NamedInOrder_def NewRoot_def)
  have line: "PrintReport =
      (\<lambda>f. let accepted = sum_list (fAccepted f); all = accepted + sum_list (fRejected f)
           in \<lparr>rName = fName f, rAccepted = accepted, rAll = all,
               rPerc = (if 0 < all then real accepted / real all * 100 else 0)\<rparr>)"
    by (rule ext) (simp add: PrintReport_def Let_def)
  have named: "HasName = (\<lambda>f. fName f \<noteq> [])" by (rule ext) (simp add: HasName_def)
  have rest: "NamedInOrder (BookFilter f df) \<and> NamedInOrder (BookAction a df) \<and>
      NamedInOrder (BookBranch b df) \<and>
      fBookedFilters (BookFilter f df) = fBookedFilters df @ [f] \<and>
      (\<forall>lines df'. ReportOf imtEnabled tasks df = (Inr lines, df') \<longrightarrow>
         NamedInOrder df' \<and>
         map fName (fBookedFilters df') = map fName (fBookedFilters df) \<and>
         lines =
           map (\<lambda>f. let accepted = sum_list (fAccepted f);
                       all = accepted + sum_list (fRejected f)
                   in \<lparr>rName = fName f, rAccepted = accepted, rAll = all,
                       rPerc = (if 0 < all then real accepted / real all * 100 else 0)\<rparr>)
             (filter (\<lambda>f. fName f \<noteq> []) (fBookedFilters df')))"
    if inv: "NamedInOrder df"
  proof -
    have 1: "NamedInOrder (BookFilter f df)" by (rule NamedInOrder_BookFilter [OF inv])
    have 2: "NamedInOrder (BookAction a df)" "NamedInOrder (BookBranch b df)"
      using inv by (simp_all add: NamedInOrder_def BookAction_def BookBranch_def)
    have 3: "fBookedFilters (BookFilter f df) = fBookedFilters df @ [f]"
      by (simp add: BookFilter_def Let_def)
    have 4: "NamedInOrder df' \<and>
         map fName (fBookedFilters df') = map fName (fBookedFilters df) \<and>
         lines = map PrintReport (filter (\<lambda>f. fName f \<noteq> []) (fBookedFilters df'))"
      if r: "ReportOf imtEnabled tasks df = (Inr lines, df')" for lines df'
    proof -
      have l: "lines = Report df'" and n: "fBookedNamedFilters df' = fBookedNamedFilters df"
        and s: "map FilterShape (fBookedFilters df') = map FilterShape (fBookedFilters df)"
        using ReportOf_Report [OF r] by blast+
      have inv': "NamedInOrder df'" by (rule NamedInOrder_shape [OF inv n s])
      have names: "map fName (fBookedFilters df') = map fName (fBookedFilters df)"
      proof -
        have "map (fst \<circ> FilterShape) (fBookedFilters df') = map (fst \<circ> FilterShape) (fBookedFilters df)"
          using s by (metis map_map)
        moreover have "fst \<circ> FilterShape = fName" by (auto simp: FilterShape_def)
        ultimately show ?thesis by simp
      qed
      have "Report df' = map PrintReport (map ((!) (fBookedFilters df')) (fBookedNamedFilters df'))"
        by (simp add: Report_def comp_def)
      also have "\<dots> = map PrintReport (filter HasName (fBookedFilters df'))"
        using inv' nth_filter_positions [of "fBookedFilters df'" HasName]
        by (simp add: NamedInOrder_def)
      finally have "lines = map PrintReport (filter (\<lambda>f. fName f \<noteq> []) (fBookedFilters df'))"
        using l named by simp
      then show ?thesis using inv' names by blast
    qed
    show ?thesis using 1 2 3 4 unfolding line by blast
  qed
  show ?thesis using p new rest by blast
qed

theorem report_lines_witness:
  "NamedInOrder (snd CutflowBooked) \<and>
   map fName (fBookedFilters (snd CutflowBooked)) = [''gt1'', ''lt3''] \<and>
   passes (snd (ReportOf False [] (snd CutflowBooked))) = 1 \<and>
   fst (ReportOf False [] (snd CutflowBooked)) =
     Inr [\<lparr>rName = ''gt1'', rAccepted = 2, rAll = 3, rPerc = 200 / 3\<rparr>,
          \<lparr>rName = ''lt3'', rAccepted = 1, rAll = 2, rPerc = 50\<rparr>] \<and>
   map fName (fBookedFilters (snd (ReportOf False [] (snd CutflowBooked)))) = [''gt1'', ''lt3'']"
proof -
  let ?df = "snd CutflowBooked"
  have inv: "NamedInOrder ?df"
    by (simp add: NamedInOrder_def run_unfold)
  have a: "passes (snd (ReportOf False [] ?df)) =
     (if fHasRunAtLeastOnce ?df then passes ?df else passes ?df + 1)"
    using report_lines [of False "[]" ?df] by blast
  have b: "\<not> fHasRunAtLeastOnce ?df" "passes ?df = 0"
    "map fName (fBookedFilters ?df) = [''gt1'', ''lt3'']"
    by (simp_all add: run_unfold)
  have c: "fst (ReportOf False [] ?df) =
     Inr [\<lparr>rName = ''gt1'', rAccepted = 2, rAll = 3, rPerc = 200 / 3\<rparr>,
          \<lparr>rName = ''lt3'', rAccepted = 1, rAll = 2, rPerc = 50\<rparr>]"
    by (simp add: run_unfold)
  then have r: "ReportOf False [] ?df =
     (Inr [\<lparr>rName = ''gt1'', rAccepted = 2, rAll = 3, rPerc = 200 / 3\<rparr>,
           \<lparr>rName = ''lt3'', rAccepted = 1, rAll = 2, rPerc = 50\<rparr>],
      snd (ReportOf False [] ?df))"
    by (metis prod.collapse)
  have d: "map fName (fBookedFilters (snd (ReportOf False [] ?df))) = map fName (fBookedFilters ?df)"
    using report_lines [of False "[]" ?df] inv r by blast
  show ?thesis using inv a b c d by simp
qed

subsection \<open>Well-formed roots\<close>

lemma shape_nth:
  assumes "map g xs' = map g xs" "i < length xs"
  shows "g (xs' ! i) = g (xs ! i)"
proof -
  have "length xs' = length xs" using assms(1) by (rule map_eq_imp_length_eq)
  then show ?thesis using assms by (metis nth_map)
qed

lemma SameBooking_filters:
  assumes "SameBooking df df'"
  shows "length (fBookedFilters df') = length (fBookedFilters df)"
    and "i < length (fBookedFilters df) \<Longrightarrow>
      FilterShape (fBookedFilters df' ! i) = FilterShape (fBookedFilters df ! i)"
proof -
  have m: "map FilterShape (fBookedFilters df') = map FilterShape (fBookedFilters df)"
    using assms by (simp add: SameBooking_def)
  show "length (fBookedFilters df') = length (fBookedFilters df)"
    using m by (rule map_eq_imp_length_eq)
  show "i < length (fBookedFilters df) \<Longrightarrow>
      FilterShape (fBookedFilters df' ! i) = FilterShape (fBookedFilters df ! i)"
    using m by (rule shape_nth)
qed

lemma SameBooking_actions:
  assumes "SameBooking df df'"
  shows "length (fBookedActions df') = length (fBookedActions df)"
    and "i < length (fBookedActions df) \<Longrightarrow>
      ActionShape (fBookedActions df' ! i) = ActionShape (fBookedActions df ! i)"
proof -
  have m: "map ActionShape (fBookedActions df') = map ActionShape (fBookedActions df)"
    using assms by (simp add: SameBooking_def)
  show "length (fBookedActions df') = length (fBookedActions df)"
    using m by (rule map_eq_imp_length_eq)
  show "i < length (fBookedActions df) \<Longrightarrow>
      ActionShape (fBookedActions df' ! i) = ActionShape (fBookedActions df ! i)"
    using m by (rule shape_nth)
qed

lemma SameBooking_branches:
  assumes "SameBooking df df'"
  shows "length (fBookedBranches df') = length (fBookedBranches df)"
    and "map fst (fBookedBranches df') = map fst (fBookedBranches df)"
    and "(n, b') \<in> set (fBookedBranches df') \<Longrightarrow>
      \<exists>b. (n, b) \<in> set (fBookedBranches df) \<and> BranchShape b' = BranchShape b"
    and "map_option BranchShape (map_of (fBookedBranches df') c) =
      map_option BranchShape (map_of (fBookedBranches df) c)"
proof -
  let ?g = "\<lambda>(n, b). (n, BranchShape b)"
  have m: "map ?g (fBookedBranches df') = map ?g (fBookedBranches df)"
    using assms by (simp add: SameBooking_def)
  show "length (fBookedBranches df') = length (fBookedBranches df)"
    using m by (rule map_eq_imp_length_eq)
  have "map fst (map ?g (fBookedBranches df')) = map fst (map ?g (fBookedBranches df))"
    using m by simp
  then show "map fst (fBookedBranches df') = map fst (fBookedBranches df)"
    by (simp add: comp_def case_prod_unfold)
  show "\<exists>b. (n, b) \<in> set (fBookedBranches df) \<and> BranchShape b' = BranchShape b"
    if "(n, b') \<in> set (fBookedBranches df')"
  proof -
    have "(n, BranchShape b') \<in> set (map ?g (fBookedBranches df'))"
      using that by force
    then have "(n, BranchShape b') \<in> set (map ?g (fBookedBranches df))" using m by simp
    then show ?thesis by auto
  qed
  have "map_of (map ?g xs) c = map_option BranchShape (map_of xs c)" for xs
    by (induction xs) auto
  then show "map_option BranchShape (map_of (fBookedBranches df') c) =
      map_option BranchShape (map_of (fBookedBranches df) c)"
    using m by metis
qed

lemma WellFormed_SameBooking:
  assumes wf: "WellFormed rk df" and same: "SameBooking df df'"
  shows "WellFormed rk df'"
proof -
  note fl = SameBooking_filters [OF same]
  note bl = SameBooking_branches [OF same]
  have 1: "\<forall>i < length (fBookedFilters df').
         \<forall>p. fPrevData (fBookedFilters df' ! i) = Some p \<longrightarrow> p < i"
  proof (intro allI impI)
    fix i p assume i: "i < length (fBookedFilters df')" and p: "fPrevData (fBookedFilters df' ! i) = Some p"
    have "fPrevData (fBookedFilters df' ! i) = fPrevData (fBookedFilters df ! i)"
      using fl(2) [of i] i fl(1) by (simp add: FilterShape_def)
    then show "p < i" using wf i p fl(1) by (simp add: WellFormed_def)
  qed
  have 2: "\<forall>i \<in> set (fBookedNamedFilters df'). i < length (fBookedFilters df')"
    using wf same fl(1) by (simp add: WellFormed_def SameBooking_def)
  have 3: "\<forall>a \<in> set (fBookedActions df').
         \<forall>p. aPrevData a = Some p \<longrightarrow> p < length (fBookedFilters df')"
  proof (intro ballI allI impI)
    fix a p assume a: "a \<in> set (fBookedActions df')" and p: "aPrevData a = Some p"
    have "ActionShape a \<in> set (map ActionShape (fBookedActions df'))"
      using a by simp
    moreover have "map ActionShape (fBookedActions df') = map ActionShape (fBookedActions df)"
      using same by (simp add: SameBooking_def)
    ultimately have "ActionShape a \<in> set (map ActionShape (fBookedActions df))"
      by simp
    then obtain a0 where a0: "a0 \<in> set (fBookedActions df)" "ActionShape a = ActionShape a0"
      by auto
    then have "aPrevData a0 = Some p" using p by (simp add: ActionShape_def)
    then show "p < length (fBookedFilters df')" using wf a0(1) fl(1) by (simp add: WellFormed_def)
  qed
  have 4: "distinct (map fst (fBookedBranches df'))"
    using wf bl(2) by (simp add: WellFormed_def)
  have 5: "\<forall>(n, b) \<in> set (fBookedBranches df').
         rk n < length (fBookedBranches df') \<and>
         (\<forall>c \<in> set (bBranches b). c \<in> set (bTmpBranches b) \<longrightarrow> rk c < rk n)"
  proof (clarify)
    fix n b' assume "(n, b') \<in> set (fBookedBranches df')"
    then obtain b where b: "(n, b) \<in> set (fBookedBranches df)" "BranchShape b' = BranchShape b"
      using bl(3) by blast
    have "rk n < length (fBookedBranches df) \<and>
         (\<forall>c \<in> set (bBranches b). c \<in> set (bTmpBranches b) \<longrightarrow> rk c < rk n)"
      using wf b(1) by (auto simp: WellFormed_def)
    then show "rk n < length (fBookedBranches df') \<and>
         (\<forall>c \<in> set (bBranches b'). c \<in> set (bTmpBranches b') \<longrightarrow> rk c < rk n)"
      using b(2) bl(1) by (simp add: BranchShape_def)
  qed
  show ?thesis unfolding WellFormed_def using 1 2 3 4 5 by blast
qed

subsection \<open>What an evaluation leaves alone\<close>

lemma SameBooking_refl [simp]: "SameBooking df df"
  by (simp add: SameBooking_def)

lemma values_SameBooking:
  "SameBooking df (snd (GetTmpBranchValue k c slot entry df))"
  "SameBooking df (snd (ReadValues k cs tmpbl slot entry df))"
proof -
  have k: "\<And>d b c vs. SameBooking d (snd (CallExpression b c slot entry vs d))"
    using Keeps_SameBooking [of slot entry] unfolding Keeps_def by blast
  show "SameBooking df (snd (GetTmpBranchValue k c slot entry df))"
    by (rule values_keep(1) [of SameBooking, OF SameBooking_refl SameBooking_trans k])
  show "SameBooking df (snd (ReadValues k cs tmpbl slot entry df))"
    by (rule values_keep(2) [of SameBooking, OF SameBooking_refl SameBooking_trans k])
qed

lemma CallExpression_filters:
  "fBookedFilters (snd (CallExpression b c slot entry vs df)) = fBookedFilters df \<and>
   fBookedActions (snd (CallExpression b c slot entry vs df)) = fBookedActions df"
  by (simp add: CallExpression_def ModifyBranch_def Let_def split: option.splits)

lemma values_filters:
  "fBookedFilters (snd (GetTmpBranchValue k c slot entry df)) = fBookedFilters df \<and>
   fBookedActions (snd (GetTmpBranchValue k c slot entry df)) = fBookedActions df"
  "fBookedFilters (snd (ReadValues k cs tmpbl slot entry df)) = fBookedFilters df \<and>
   fBookedActions (snd (ReadValues k cs tmpbl slot entry df)) = fBookedActions df"
  using values_keep [of "\<lambda>d d'. fBookedFilters d' = fBookedFilters d \<and>
      fBookedActions d' = fBookedActions d" slot entry] CallExpression_filters
  by simp_all

lemma CallExpression_other:
  "n \<noteq> c \<Longrightarrow>
   map_of (fBookedBranches (snd (CallExpression b c slot entry vs df))) n =
     map_of (fBookedBranches df) n"
  by (simp add: CallExpression_def ModifyBranch_def Let_def map_of_map_entry split: option.splits)

lemma values_above:
  "WellFormed rk df \<Longrightarrow> rk c < R \<Longrightarrow> R \<le> rk n \<Longrightarrow>
     map_of (fBookedBranches (snd (GetTmpBranchValue k c slot entry df))) n =
       map_of (fBookedBranches df) n"
  "WellFormed rk df \<Longrightarrow> (\<forall>c \<in> set cs. c \<in> set tmpbl \<longrightarrow> rk c < R) \<Longrightarrow> R \<le> rk n \<Longrightarrow>
     map_of (fBookedBranches (snd (ReadValues k cs tmpbl slot entry df))) n =
       map_of (fBookedBranches df) n"
proof (induction k c slot entry df and k cs tmpbl slot entry df
    rule: GetTmpBranchValue_ReadValues.induct)
  case (1 branch slot entry df)
  then show ?case by simp
next
  case (2 k branch slot entry df)
  show ?case
  proof (cases "map_of (fBookedBranches df) branch")
    case None
    then show ?thesis by simp
  next
    case (Some b)
    show ?thesis
    proof (cases "slot < length (bLastCheckedEntry b) \<and> slot < length (bLastResult b) \<and>
        entry \<noteq> bLastCheckedEntry b ! slot")
      case False
      then show ?thesis using Some by auto
    next
      case True
      have mem: "(branch, b) \<in> set (fBookedBranches df)" using Some by (rule map_of_SomeD)
      have below: "\<forall>c \<in> set (bBranches b). c \<in> set (bTmpBranches b) \<longrightarrow> rk c < R"
        using "2.prems"(1,2) mem by (fastforce simp: WellFormed_def)
      obtain r df1 where rv: "ReadValues k (bBranches b) (bTmpBranches b) slot entry df = (r, df1)"
        by (cases "ReadValues k (bBranches b) (bTmpBranches b) slot entry df")
      have s1: "map_of (fBookedBranches df1) n = map_of (fBookedBranches df) n"
        using "2.IH" [OF Some _ _ "2.prems"(1) below "2.prems"(3)] True rv by simp
      have ne: "n \<noteq> branch" using "2.prems"(2,3) by auto
      show ?thesis
        using Some True rv s1 CallExpression_other [OF ne]
        by (auto split: sum.splits)
    qed
  qed
next
  case (3 k tmpbl slot entry df)
  then show ?case by simp
next
  case (4 k c cs tmpbl slot entry df)
  let ?first = "if c \<in> set tmpbl then GetTmpBranchValue k c slot entry df
            else (case ReadBranch (fTree df) c entry of
                    None \<Rightarrow> (Inl (UnknownBranch c), df)
                  | Some v \<Rightarrow> (Inr v, df))"
  obtain r df1 where f: "?first = (r, df1)" by (cases ?first)
  have sb: "SameBooking df df1"
    using f values_SameBooking(1) [of df k c slot entry]
    by (auto split: if_splits option.splits)
  have wf1: "WellFormed rk df1" using WellFormed_SameBooking [OF "4.prems"(1) sb] .
  have s1: "map_of (fBookedBranches df1) n = map_of (fBookedBranches df) n"
  proof (cases "c \<in> set tmpbl")
    case True
    then have "rk c < R" using "4.prems"(2) by simp
    then show ?thesis using "4.IH"(1) [OF True "4.prems"(1) _ "4.prems"(3)] True f by simp
  next
    case False
    then show ?thesis using f by (auto split: option.splits)
  qed
  show ?case
  proof (cases r)
    case (Inl e)
    then show ?thesis using f s1 by simp
  next
    case (Inr v)
    have "map_of (fBookedBranches (snd (ReadValues k cs tmpbl slot entry df1))) n =
       map_of (fBookedBranches df1) n"
      using "4.IH"(2) [OF f [symmetric] Inr wf1 _ "4.prems"(3)] "4.prems"(2) by simp
    then show ?thesis using f Inr s1 by (auto split: prod.splits sum.splits)
  qed
qed

subsection \<open>A callable is called once for an entry and a slot\<close>

lemma set_map_entry:
  "(n, b') \<in> set (AList.map_entry c g xs) \<Longrightarrow>
   (n, b') \<in> set xs \<or> (n = c \<and> (\<exists>b. map_of xs c = Some b \<and> b' = g b))"
  by (induction xs) (auto split: if_splits)

lemma map_entry_twice:
  "AList.map_entry c g (AList.map_entry c h xs) = AList.map_entry c (g \<circ> h) xs"
  by (induction xs) auto

lemma ModifyBranch_twice:
  "ModifyBranch c g (ModifyBranch c h df) = ModifyBranch c (g \<circ> h) df"
  by (simp add: ModifyBranch_def map_entry_twice)

lemma ModifyFilter_twice:
  "ModifyFilter i g (ModifyFilter i h df) = ModifyFilter i (g \<circ> h) df"
  by (cases "i < length (fBookedFilters df)") (simp_all add: ModifyFilter_def list_update_beyond)

lemma all_list_update:
  assumes "\<forall>f \<in> set xs. P f" and "i < length xs \<Longrightarrow> P y"
  shows "\<forall>f \<in> set (xs[i := y]). P f"
proof (cases "i < length xs")
  case True
  have "set (xs[i := y]) \<subseteq> insert y (set xs)" by (rule set_update_subset_insert)
  then show ?thesis using assms True by auto
next
  case False
  then show ?thesis using assms(1) by (simp add: list_update_beyond)
qed

lemma all_map_entry:
  assumes "\<forall>(n, b) \<in> set xs. P b" and "\<And>b. map_of xs c = Some b \<Longrightarrow> P (g b)"
  shows "\<forall>(n, b) \<in> set (AList.map_entry c g xs). P b"
proof (clarify)
  fix n b' assume "(n, b') \<in> set (AList.map_entry c g xs)"
  then have "(n, b') \<in> set xs \<or> (n = c \<and> (\<exists>b. map_of xs c = Some b \<and> b' = g b))"
    by (rule set_map_entry)
  then show "P b'" using assms by auto
qed

lemma NodeLogged_CallsOk:
  "CallsOk D slot entry calls lc \<Longrightarrow> NodeLogged (insert entry D) calls"
  unfolding CallsOk_def NodeLogged_def by auto

lemma Once_Logged: "Once D slot entry df \<Longrightarrow> Logged (insert entry D) df"
  unfolding Once_def Logged_def by (auto intro: NodeLogged_CallsOk)

lemma CallsOk_NodeLogged:
  "NodeLogged D calls \<Longrightarrow> entry \<notin> D \<Longrightarrow> CallsOk D slot entry calls lc"
  unfolding CallsOk_def NodeLogged_def by auto

lemma Logged_Once: "Logged D df \<Longrightarrow> entry \<notin> D \<Longrightarrow> Once D slot entry df"
  unfolding Once_def Logged_def by (auto intro: CallsOk_NodeLogged)

lemma Logged_mono: "Logged D df \<Longrightarrow> D \<subseteq> D' \<Longrightarrow> Logged D' df"
  unfolding Logged_def NodeLogged_def by fastforce

lemma OnceAfter_Logged: "OnceAfter D slot entry out \<Longrightarrow> Logged (insert entry D) (snd out)"
  unfolding OnceAfter_def by (auto split: sum.splits intro: Once_Logged)

lemma OnceAfter_same: "Once D slot entry df \<Longrightarrow> OnceAfter D slot entry (r, df)"
  unfolding OnceAfter_def by (auto split: sum.splits intro: Once_Logged)

lemma Once_ModifyBranch:
  assumes "Once D slot entry df"
    and "\<And>b. map_of (fBookedBranches df) c = Some b \<Longrightarrow>
      CallsOk D slot entry (bCalls (g b)) (bLastCheckedEntry (g b))"
  shows "Once D slot entry (ModifyBranch c g df)"
proof -
  have "\<forall>(n, b) \<in> set (AList.map_entry c g (fBookedBranches df)).
      CallsOk D slot entry (bCalls b) (bLastCheckedEntry b)"
    using assms by (intro all_map_entry) (auto simp: Once_def)
  then show ?thesis using assms(1) by (simp add: Once_def ModifyBranch_def)
qed

lemma Logged_ModifyBranch:
  assumes "Logged D df"
    and "\<And>b. map_of (fBookedBranches df) c = Some b \<Longrightarrow> NodeLogged D (bCalls (g b))"
  shows "Logged D (ModifyBranch c g df)"
proof -
  have "\<forall>(n, b) \<in> set (AList.map_entry c g (fBookedBranches df)). NodeLogged D (bCalls b)"
    using assms by (intro all_map_entry) (auto simp: Logged_def)
  then show ?thesis using assms(1) by (simp add: Logged_def ModifyBranch_def)
qed

lemma Once_ModifyFilter:
  assumes "Once D slot entry df"
    and "i < length (fBookedFilters df) \<Longrightarrow>
      CallsOk D slot entry (fCalls (g (fBookedFilters df ! i)))
        (fLastCheckedEntry (g (fBookedFilters df ! i)))"
  shows "Once D slot entry (ModifyFilter i g df)"
proof -
  have "\<forall>f \<in> set ((fBookedFilters df)[i := g (fBookedFilters df ! i)]).
      CallsOk D slot entry (fCalls f) (fLastCheckedEntry f)"
    using assms by (intro all_list_update) (auto simp: Once_def)
  then show ?thesis using assms(1) by (simp add: Once_def ModifyFilter_def)
qed

lemma Logged_ModifyFilter:
  assumes "Logged D df"
    and "i < length (fBookedFilters df) \<Longrightarrow> NodeLogged D (fCalls (g (fBookedFilters df ! i)))"
  shows "Logged D (ModifyFilter i g df)"
proof -
  have "\<forall>f \<in> set ((fBookedFilters df)[i := g (fBookedFilters df ! i)]). NodeLogged D (fCalls f)"
    using assms by (intro all_list_update) (auto simp: Logged_def)
  then show ?thesis using assms(1) by (simp add: Logged_def ModifyFilter_def)
qed

lemma Once_branch:
  "Once D slot entry df \<Longrightarrow> map_of (fBookedBranches df) c = Some b \<Longrightarrow>
   CallsOk D slot entry (bCalls b) (bLastCheckedEntry b)"
  unfolding Once_def by (auto dest: map_of_SomeD)

lemma Once_filter:
  "Once D slot entry df \<Longrightarrow> i < length (fBookedFilters df) \<Longrightarrow>
   CallsOk D slot entry (fCalls (fBookedFilters df ! i)) (fLastCheckedEntry (fBookedFilters df ! i))"
  unfolding Once_def by auto

lemma Logged_throws [simp]: "Logged D (df\<lparr>throws := n\<rparr>) = Logged D df"
  by (simp add: Logged_def)

lemma CallExpression_once:
  assumes once: "Once D slot entry df"
    and fresh: "\<And>b1. map_of (fBookedBranches df) c = Some b1 \<Longrightarrow>
      slot < length (bLastCheckedEntry b1) \<and> bLastCheckedEntry b1 ! slot \<noteq> entry"
  shows "OnceAfter D slot entry (CallExpression b c slot entry vs df)"
proof -
  let ?log = "\<lambda>b. b\<lparr>bCalls := bCalls b @ [(slot, entry)]\<rparr>"
  have notyet: "(slot, entry) \<notin> set (bCalls b1)" and ok: "CallsOk D slot entry (bCalls b1) (bLastCheckedEntry b1)"
    if "map_of (fBookedBranches df) c = Some b1" for b1
    using Once_branch [OF once that] fresh [OF that] by (auto simp: CallsOk_def)
  show ?thesis
  proof (cases "bExpression b vs")
    case None
    have "Logged (insert entry D) (ModifyBranch c ?log df)"
    proof (rule Logged_ModifyBranch [OF Once_Logged [OF once]])
      fix b1 assume b1: "map_of (fBookedBranches df) c = Some b1"
      show "NodeLogged (insert entry D) (bCalls (?log b1))"
        using notyet [OF b1] ok [OF b1] by (auto simp: CallsOk_def NodeLogged_def)
    qed
    then show ?thesis using None by (simp add: CallExpression_def OnceAfter_def Let_def)
  next
    case (Some v)
    let ?store = "\<lambda>b. b\<lparr>bLastResult := (bLastResult b)[slot := v],
                       bLastCheckedEntry := (bLastCheckedEntry b)[slot := entry]\<rparr>"
    have "Once D slot entry (ModifyBranch c (?store \<circ> ?log) df)"
    proof (rule Once_ModifyBranch [OF once])
      fix b1 assume b1: "map_of (fBookedBranches df) c = Some b1"
      show "CallsOk D slot entry (bCalls ((?store \<circ> ?log) b1)) (bLastCheckedEntry ((?store \<circ> ?log) b1))"
        using notyet [OF b1] ok [OF b1] fresh [OF b1] by (auto simp: CallsOk_def)
    qed
    then show ?thesis
      using Some by (simp add: CallExpression_def OnceAfter_def ModifyBranch_twice Let_def)
  qed
qed

lemma values_once:
  "WellFormed rk df \<Longrightarrow> Once D slot entry df \<Longrightarrow>
     OnceAfter D slot entry (GetTmpBranchValue k c slot entry df)"
  "WellFormed rk df \<Longrightarrow> Once D slot entry df \<Longrightarrow>
     OnceAfter D slot entry (ReadValues k cs tmpbl slot entry df)"
proof (induction k c slot entry df and k cs tmpbl slot entry df
    rule: GetTmpBranchValue_ReadValues.induct)
  case (1 branch slot entry df)
  then show ?case by (simp add: OnceAfter_same)
next
  case (2 k branch slot entry df)
  show ?case
  proof (cases "map_of (fBookedBranches df) branch")
    case None
    then show ?thesis using "2.prems" by (simp add: OnceAfter_same)
  next
    case (Some b)
    show ?thesis
    proof (cases "slot < length (bLastCheckedEntry b) \<and> slot < length (bLastResult b) \<and>
        entry \<noteq> bLastCheckedEntry b ! slot")
      case False
      then show ?thesis using Some "2.prems" by (auto simp: OnceAfter_same)
    next
      case True
      have mem: "(branch, b) \<in> set (fBookedBranches df)" using Some by (rule map_of_SomeD)
      have below: "\<forall>c \<in> set (bBranches b). c \<in> set (bTmpBranches b) \<longrightarrow> rk c < rk branch"
        using "2.prems"(1) mem by (fastforce simp: WellFormed_def)
      obtain r df1 where rv: "ReadValues k (bBranches b) (bTmpBranches b) slot entry df = (r, df1)"
        by (cases "ReadValues k (bBranches b) (bTmpBranches b) slot entry df")
      have after1: "OnceAfter D slot entry (r, df1)"
        using "2.IH" [OF Some _ _ "2.prems"] True rv by simp
      have same: "map_of (fBookedBranches df1) branch = Some b"
        using values_above(2) [OF "2.prems"(1) below order_refl, of k slot entry] rv Some by simp
      show ?thesis
      proof (cases r)
        case (Inl e)
        then show ?thesis using Some True rv after1 by (simp add: OnceAfter_def)
      next
        case (Inr vs)
        then have once1: "Once D slot entry df1" using after1 by (simp add: OnceAfter_def)
        have "OnceAfter D slot entry (CallExpression b branch slot entry vs df1)"
          by (rule CallExpression_once [OF once1]) (use same True in auto)
        then show ?thesis using Some True rv Inr by simp
      qed
    qed
  qed
next
  case (3 k tmpbl slot entry df)
  then show ?case by (simp add: OnceAfter_same)
next
  case (4 k c cs tmpbl slot entry df)
  let ?first = "if c \<in> set tmpbl then GetTmpBranchValue k c slot entry df
            else (case ReadBranch (fTree df) c entry of
                    None \<Rightarrow> (Inl (UnknownBranch c), df)
                  | Some v \<Rightarrow> (Inr v, df))"
  obtain r df1 where f: "?first = (r, df1)" by (cases ?first)
  have sb: "SameBooking df df1"
    using f values_SameBooking(1) [of df k c slot entry]
    by (auto split: if_splits option.splits)
  have wf1: "WellFormed rk df1" using WellFormed_SameBooking [OF "4.prems"(1) sb] .
  have after1: "OnceAfter D slot entry (r, df1)"
  proof (cases "c \<in> set tmpbl")
    case True
    then show ?thesis using "4.IH"(1) [OF True "4.prems"] f by simp
  next
    case False
    then show ?thesis using f "4.prems"(2) by (auto split: option.splits simp: OnceAfter_same)
  qed
  show ?case
  proof (cases r)
    case (Inl e)
    then show ?thesis using f after1 by (simp add: OnceAfter_def)
  next
    case (Inr v)
    then have once1: "Once D slot entry df1" using after1 by (simp add: OnceAfter_def)
    have "OnceAfter D slot entry (ReadValues k cs tmpbl slot entry df1)"
      using "4.IH"(2) [OF f [symmetric] Inr wf1 once1] .
    then show ?thesis using f Inr by (auto simp: OnceAfter_def split: prod.splits sum.splits)
  qed
qed

lemma CheckFilters_SameBooking: "SameBooking df (snd (CheckFilters k p slot entry df))"
  by (rule CheckFilters_keeps [OF Preorder_SameBooking Keeps_SameBooking])

lemma ModifyFilter_nth_other:
  "j \<noteq> i \<Longrightarrow> fBookedFilters (ModifyFilter i g df) ! j = fBookedFilters df ! j"
  by (simp add: ModifyFilter_def)

lemma CallFilter_nth_other:
  "j \<noteq> i \<Longrightarrow> fBookedFilters (snd (CallFilter f i slot entry vs df)) ! j = fBookedFilters df ! j"
  by (simp add: CallFilter_def Let_def ModifyFilter_nth_other split: option.splits)

lemma CheckFilters_above:
  "WellFormed rk df \<Longrightarrow> (\<forall>i. p = Some i \<longrightarrow> i < J \<and> i < length (fBookedFilters df)) \<Longrightarrow>
   J \<le> j \<Longrightarrow>
   fBookedFilters (snd (CheckFilters k p slot entry df)) ! j = fBookedFilters df ! j"
proof (induction k p slot entry df arbitrary: J rule: CheckFilters.induct)
  case (1 k slot entry df)
  then show ?case by simp
next
  case (2 i slot entry df)
  then show ?case by simp
next
  case (3 k i slot entry df)
  let ?f = "fBookedFilters df ! i"
  have i: "i < J" "i < length (fBookedFilters df)" using "3.prems"(2) by auto
  have ne: "j \<noteq> i" using i "3.prems"(3) by simp
  show ?case
  proof (cases "slot < length (fLastCheckedEntry ?f) \<and> slot < length (fLastResult ?f)
         \<and> slot < length (fAccepted ?f) \<and> slot < length (fRejected ?f)
         \<and> entry \<noteq> fLastCheckedEntry ?f ! slot")
    case False
    then show ?thesis by (auto simp: Let_def)
  next
    case True
    have up: "\<forall>p'. fPrevData ?f = Some p' \<longrightarrow> p' < i \<and> p' < length (fBookedFilters df)"
      using "3.prems"(1) i by (auto simp: WellFormed_def)
    obtain r df1 where c: "CheckFilters k (fPrevData ?f) slot entry df = (r, df1)"
      by (cases "CheckFilters k (fPrevData ?f) slot entry df")
    have "i \<le> j" using i "3.prems"(3) by simp
    then have s1: "fBookedFilters df1 ! j = fBookedFilters df ! j"
      using "3.IH" [OF HOL.refl _ _ "3.prems"(1) up] True c by simp
    obtain r2 df2 where rv: "ReadValues k (fBranches ?f) (fTmpBranches ?f) slot entry df1 = (r2, df2)"
      by (cases "ReadValues k (fBranches ?f) (fTmpBranches ?f) slot entry df1")
    have s2: "fBookedFilters df2 = fBookedFilters df1"
      using values_filters(2) [of k "fBranches ?f" "fTmpBranches ?f" slot entry df1] rv by simp
    show ?thesis
      using True c rv s1 s2 ne
      by (auto simp: Let_def RecordRejected_def ModifyFilter_nth_other CallFilter_nth_other
          split: sum.splits bool.splits)
  qed
qed

lemma CallFilter_once:
  assumes once: "Once D slot entry df"
    and fresh: "i < length (fBookedFilters df) \<Longrightarrow>
      slot < length (fLastCheckedEntry (fBookedFilters df ! i)) \<and>
      fLastCheckedEntry (fBookedFilters df ! i) ! slot \<noteq> entry"
  shows "OnceAfter D slot entry (CallFilter f i slot entry vs df)"
proof -
  let ?log = "\<lambda>f. f\<lparr>fCalls := fCalls f @ [(slot, entry)]\<rparr>"
  let ?f1 = "fBookedFilters df ! i"
  have notyet: "(slot, entry) \<notin> set (fCalls ?f1)"
    and ok: "CallsOk D slot entry (fCalls ?f1) (fLastCheckedEntry ?f1)"
    if "i < length (fBookedFilters df)"
    using Once_filter [OF once that] fresh [OF that] by (auto simp: CallsOk_def)
  show ?thesis
  proof (cases "fFilter f vs")
    case None
    have "Logged (insert entry D) (ModifyFilter i ?log df)"
    proof (rule Logged_ModifyFilter [OF Once_Logged [OF once]])
      assume i: "i < length (fBookedFilters df)"
      show "NodeLogged (insert entry D) (fCalls (?log ?f1))"
        using notyet [OF i] ok [OF i] by (auto simp: CallsOk_def NodeLogged_def)
    qed
    then show ?thesis using None by (simp add: CallFilter_def OnceAfter_def Let_def)
  next
    case (Some passed)
    let ?store = "\<lambda>f. f\<lparr>fAccepted :=
                         (if HasName f \<and> passed
                          then (fAccepted f)[slot := fAccepted f ! slot + 1]
                          else fAccepted f),
                       fRejected :=
                         (if HasName f \<and> \<not> passed
                          then (fRejected f)[slot := fRejected f ! slot + 1]
                          else fRejected f),
                       fLastResult := (fLastResult f)[slot := passed],
                       fLastCheckedEntry := (fLastCheckedEntry f)[slot := entry]\<rparr>"
    have "Once D slot entry (ModifyFilter i (?store \<circ> ?log) df)"
    proof (rule Once_ModifyFilter [OF once])
      assume i: "i < length (fBookedFilters df)"
      show "CallsOk D slot entry (fCalls ((?store \<circ> ?log) ?f1)) (fLastCheckedEntry ((?store \<circ> ?log) ?f1))"
        using notyet [OF i] ok [OF i] fresh [OF i] by (auto simp: CallsOk_def)
    qed
    then show ?thesis
      using Some by (simp add: CallFilter_def OnceAfter_def ModifyFilter_twice Let_def)
  qed
qed

lemma RecordRejected_once:
  assumes once: "Once D slot entry df"
    and fresh: "i < length (fBookedFilters df) \<Longrightarrow>
      slot < length (fLastCheckedEntry (fBookedFilters df ! i))"
  shows "Once D slot entry (RecordRejected i slot entry df)"
  unfolding RecordRejected_def
proof (rule Once_ModifyFilter [OF once])
  assume i: "i < length (fBookedFilters df)"
  let ?f1 = "fBookedFilters df ! i"
  show "CallsOk D slot entry
     (fCalls (?f1\<lparr>fLastResult := (fLastResult ?f1)[slot := False],
          fLastCheckedEntry := (fLastCheckedEntry ?f1)[slot := entry]\<rparr>))
     (fLastCheckedEntry (?f1\<lparr>fLastResult := (fLastResult ?f1)[slot := False],
          fLastCheckedEntry := (fLastCheckedEntry ?f1)[slot := entry]\<rparr>))"
    using Once_filter [OF once i] fresh [OF i] by (auto simp: CallsOk_def)
qed

lemma CheckFilters_once:
  "WellFormed rk df \<Longrightarrow> Once D slot entry df \<Longrightarrow>
   (\<forall>i. p = Some i \<longrightarrow> i < length (fBookedFilters df)) \<Longrightarrow>
   OnceAfter D slot entry (CheckFilters k p slot entry df)"
proof (induction k p slot entry df rule: CheckFilters.induct)
  case (1 k slot entry df)
  then show ?case by (simp add: OnceAfter_same)
next
  case (2 i slot entry df)
  then show ?case by (simp add: OnceAfter_same)
next
  case (3 k i slot entry df)
  let ?f = "fBookedFilters df ! i"
  have i: "i < length (fBookedFilters df)" using "3.prems"(3) by simp
  show ?case
  proof (cases "slot < length (fLastCheckedEntry ?f) \<and> slot < length (fLastResult ?f)
         \<and> slot < length (fAccepted ?f) \<and> slot < length (fRejected ?f)
         \<and> entry \<noteq> fLastCheckedEntry ?f ! slot")
    case False
    then show ?thesis using "3.prems"(2) by (auto simp: Let_def OnceAfter_same)
  next
    case True
    have up: "\<forall>p'. fPrevData ?f = Some p' \<longrightarrow> p' < i \<and> p' < length (fBookedFilters df)"
      using "3.prems"(1) i by (auto simp: WellFormed_def)
    obtain r df1 where c: "CheckFilters k (fPrevData ?f) slot entry df = (r, df1)"
      by (cases "CheckFilters k (fPrevData ?f) slot entry df")
    have after1: "OnceAfter D slot entry (r, df1)"
      using "3.IH" [OF HOL.refl _ _ "3.prems"(1,2)] True c up by simp
    have sb1: "SameBooking df df1" using CheckFilters_SameBooking [of df k "fPrevData ?f" slot entry] c by simp
    have wf1: "WellFormed rk df1" by (rule WellFormed_SameBooking [OF "3.prems"(1) sb1])
    have len1: "length (fBookedFilters df1) = length (fBookedFilters df)"
      by (rule SameBooking_filters(1) [OF sb1])
    have f1: "fBookedFilters df1 ! i = ?f"
      using CheckFilters_above [OF "3.prems"(1) up order_refl, of k slot entry] c by simp
    show ?thesis
    proof (cases r)
      case (Inl e)
      then show ?thesis using True c after1 by (simp add: Let_def OnceAfter_def)
    next
      case (Inr passedUp)
      then have once1: "Once D slot entry df1" using after1 by (simp add: OnceAfter_def)
      show ?thesis
      proof (cases passedUp)
        case False
        have "Once D slot entry (RecordRejected i slot entry df1)"
          by (rule RecordRejected_once [OF once1]) (use f1 True in simp)
        then show ?thesis using True c Inr False by (simp add: Let_def OnceAfter_def)
      next
        case pu: True
        obtain r2 df2 where rv: "ReadValues k (fBranches ?f) (fTmpBranches ?f) slot entry df1 = (r2, df2)"
          by (cases "ReadValues k (fBranches ?f) (fTmpBranches ?f) slot entry df1")
        have after2: "OnceAfter D slot entry (r2, df2)"
          using values_once(2) [OF wf1 once1, of k "fBranches ?f" "fTmpBranches ?f"] rv by simp
        have s2: "fBookedFilters df2 = fBookedFilters df1"
          using values_filters(2) [of k "fBranches ?f" "fTmpBranches ?f" slot entry df1] rv by simp
        show ?thesis
        proof (cases r2)
          case (Inl e)
          then show ?thesis using True c \<open>r = Inr passedUp\<close> pu rv after2
            by (simp add: Let_def OnceAfter_def)
        next
          case (Inr vs)
          then have once2: "Once D slot entry df2" using after2 by (simp add: OnceAfter_def)
          have "OnceAfter D slot entry (CallFilter ?f i slot entry vs df2)"
            by (rule CallFilter_once [OF once2]) (use s2 f1 True in simp)
          then show ?thesis using True c \<open>r = Inr passedUp\<close> pu rv Inr by (simp add: Let_def)
        qed
      qed
    qed
  qed
qed

lemma Once_StorePartial: "Once D slot entry df \<Longrightarrow> Once D slot entry (StorePartial i slot vs df)"
  by (simp add: Once_def StorePartial_def ModifyAction_def)

lemma ActionRun_SameBooking: "SameBooking df (snd (ActionRun k i slot entry df))"
  by (rule ActionRun_keeps [OF Preorder_SameBooking Keeps_SameBooking])

lemma RunActions_SameBooking: "SameBooking df (snd (RunActions k is slot entry df))"
  by (rule RunActions_keeps [OF Preorder_SameBooking Keeps_SameBooking])

lemma ProcessEntry_SameBooking: "SameBooking df (snd (ProcessEntry k slot entry df))"
  by (rule ProcessEntry_keeps [OF Preorder_SameBooking Keeps_SameBooking])

lemma EventLoop_SameBooking: "SameBooking df (snd (EventLoop k slot entries df))"
  by (rule EventLoop_keeps [OF Preorder_SameBooking Keeps_SameBooking])

lemma ActionRun_once:
  assumes wf: "WellFormed rk df" and once: "Once D slot entry df"
    and i: "i < length (fBookedActions df)"
  shows "OnceAfter D slot entry (ActionRun k i slot entry df)"
proof -
  let ?a = "fBookedActions df ! i"
  have valid: "\<forall>j. aPrevData ?a = Some j \<longrightarrow> j < length (fBookedFilters df)"
    using wf i by (auto simp: WellFormed_def)
  obtain r df1 where c: "CheckFilters k (aPrevData ?a) slot entry df = (r, df1)"
    by (cases "CheckFilters k (aPrevData ?a) slot entry df")
  have after1: "OnceAfter D slot entry (r, df1)"
    using CheckFilters_once [OF wf once valid, of k] c by simp
  have wf1: "WellFormed rk df1"
    using WellFormed_SameBooking [OF wf CheckFilters_SameBooking [of df k "aPrevData ?a" slot entry]] c
    by simp
  show ?thesis
  proof (cases r)
    case (Inl e)
    then show ?thesis using c after1 by (simp add: ActionRun_def Let_def OnceAfter_def)
  next
    case (Inr passedUp)
    then have once1: "Once D slot entry df1" using after1 by (simp add: OnceAfter_def)
    show ?thesis
    proof (cases passedUp)
      case False
      then show ?thesis using c Inr once1 by (simp add: ActionRun_def Let_def OnceAfter_def)
    next
      case True
      obtain r2 df2 where rv: "ReadValues k (aBranches ?a) (aTmpBranches ?a) slot entry df1 = (r2, df2)"
        by (cases "ReadValues k (aBranches ?a) (aTmpBranches ?a) slot entry df1")
      have after2: "OnceAfter D slot entry (r2, df2)"
        using values_once(2) [OF wf1 once1, of k "aBranches ?a" "aTmpBranches ?a"] rv by simp
      show ?thesis
      proof (cases r2)
        case (Inl e)
        then show ?thesis using c \<open>r = Inr passedUp\<close> True rv after2
          by (simp add: ActionRun_def Let_def OnceAfter_def)
      next
        case (Inr vs)
        then have once2: "Once D slot entry df2" using after2 by (simp add: OnceAfter_def)
        show ?thesis
          using c \<open>r = Inr passedUp\<close> True rv Inr once2 Once_StorePartial [OF once2] Once_Logged [OF once2]
          by (simp add: ActionRun_def Let_def OnceAfter_def)
      qed
    qed
  qed
qed

lemma RunActions_once:
  "WellFormed rk df \<Longrightarrow> Once D slot entry df \<Longrightarrow>
   (\<forall>i \<in> set is. i < length (fBookedActions df)) \<Longrightarrow>
   OnceAfter D slot entry (RunActions k is slot entry df)"
proof (induction "is" arbitrary: df)
  case Nil
  then show ?case by (simp add: OnceAfter_same)
next
  case (Cons i "is")
  obtain r df1 where a: "ActionRun k i slot entry df = (r, df1)"
    by (cases "ActionRun k i slot entry df")
  have after1: "OnceAfter D slot entry (r, df1)"
    using ActionRun_once [OF Cons.prems(1,2), of i k] Cons.prems(3) a by simp
  have sb: "SameBooking df df1" using ActionRun_SameBooking [of df k i slot entry] a by simp
  show ?case
  proof (cases r)
    case (Inl e)
    then show ?thesis using a after1 by (simp add: OnceAfter_def)
  next
    case (Inr u)
    then have once1: "Once D slot entry df1" using after1 by (simp add: OnceAfter_def)
    have "OnceAfter D slot entry (RunActions k is slot entry df1)"
      using Cons.IH [OF WellFormed_SameBooking [OF Cons.prems(1) sb] once1]
        Cons.prems(3) SameBooking_actions(1) [OF sb] by simp
    then show ?thesis using a Inr by simp
  qed
qed

lemma CheckNamedFilters_once:
  "WellFormed rk df \<Longrightarrow> Once D slot entry df \<Longrightarrow>
   (\<forall>i \<in> set is. i < length (fBookedFilters df)) \<Longrightarrow>
   OnceAfter D slot entry (CheckNamedFilters k is slot entry df)"
proof (induction "is" arbitrary: df)
  case Nil
  then show ?case by (simp add: OnceAfter_same)
next
  case (Cons i "is")
  obtain r df1 where a: "CheckFilters k (Some i) slot entry df = (r, df1)"
    by (cases "CheckFilters k (Some i) slot entry df")
  have after1: "OnceAfter D slot entry (r, df1)"
    using CheckFilters_once [OF Cons.prems(1,2), of "Some i" k] Cons.prems(3) a by simp
  have sb: "SameBooking df df1" using CheckFilters_SameBooking [of df k "Some i" slot entry] a by simp
  show ?case
  proof (cases r)
    case (Inl e)
    then show ?thesis using a after1 by (simp add: OnceAfter_def)
  next
    case (Inr u)
    then have once1: "Once D slot entry df1" using after1 by (simp add: OnceAfter_def)
    have "OnceAfter D slot entry (CheckNamedFilters k is slot entry df1)"
      using Cons.IH [OF WellFormed_SameBooking [OF Cons.prems(1) sb] once1]
        Cons.prems(3) SameBooking_filters(1) [OF sb] by simp
    then show ?thesis using a Inr by simp
  qed
qed

lemma ProcessEntry_once:
  assumes wf: "WellFormed rk df" and once: "Once D slot entry df"
  shows "OnceAfter D slot entry (ProcessEntry k slot entry df)"
proof -
  obtain r df1 where a: "RunActions k [0..<length (fBookedActions df)] slot entry df = (r, df1)"
    by (cases "RunActions k [0..<length (fBookedActions df)] slot entry df")
  have after1: "OnceAfter D slot entry (r, df1)"
    using RunActions_once [OF wf once, of "[0..<length (fBookedActions df)]" k] a by simp
  have sb: "SameBooking df df1"
    using RunActions_SameBooking [of df k "[0..<length (fBookedActions df)]" slot entry] a by simp
  have wf1: "WellFormed rk df1" by (rule WellFormed_SameBooking [OF wf sb])
  show ?thesis
  proof (cases r)
    case (Inl e)
    then show ?thesis using a after1 by (simp add: ProcessEntry_def OnceAfter_def)
  next
    case (Inr u)
    then have once1: "Once D slot entry df1" using after1 by (simp add: OnceAfter_def)
    have "\<forall>i \<in> set (fBookedNamedFilters df1). i < length (fBookedFilters df1)"
      using wf1 by (simp add: WellFormed_def)
    then have "OnceAfter D slot entry (CheckNamedFilters k (fBookedNamedFilters df1) slot entry df1)"
      by (rule CheckNamedFilters_once [OF wf1 once1])
    then show ?thesis using a Inr by (simp add: ProcessEntry_def)
  qed
qed

lemma EventLoop_logged:
  "WellFormed rk df \<Longrightarrow> Logged D df \<Longrightarrow> distinct entries \<Longrightarrow> set entries \<inter> D = {} \<Longrightarrow>
   Logged (D \<union> set entries) (snd (EventLoop k slot entries df))"
proof (induction entries arbitrary: df D)
  case Nil
  then show ?case by simp
next
  case (Cons e entries)
  obtain r df1 where a: "ProcessEntry k slot e df = (r, df1)"
    by (cases "ProcessEntry k slot e df")
  have "e \<notin> D" using Cons.prems(4) by simp
  then have once: "Once D slot e df" by (rule Logged_Once [OF Cons.prems(2)])
  have l1: "Logged (insert e D) df1"
    using OnceAfter_Logged [OF ProcessEntry_once [OF Cons.prems(1) once, of k]] a by simp
  have sb: "SameBooking df df1" using ProcessEntry_SameBooking [of df k slot e] a by simp
  show ?case
  proof (cases r)
    case (Inl x)
    have "Logged (D \<union> set (e # entries)) df1"
      by (rule Logged_mono [OF l1]) auto
    then show ?thesis using a Inl by simp
  next
    case (Inr u)
    have "Logged (insert e D \<union> set entries) (snd (EventLoop k slot entries df1))"
      using Cons.IH [OF WellFormed_SameBooking [OF Cons.prems(1) sb] l1] Cons.prems(3,4) by simp
    then show ?thesis using a Inr by simp
  qed
qed

lemma Process_logged:
  "WellFormed rk df \<Longrightarrow> Logged D df \<Longrightarrow> distinct (concat (map snd tasks)) \<Longrightarrow>
   set (concat (map snd tasks)) \<inter> D = {} \<Longrightarrow>
   Logged (D \<union> set (concat (map snd tasks))) (snd (Process k tasks s df))"
proof (induction tasks arbitrary: df D s)
  case Nil
  then show ?case by simp
next
  case (Cons task tasks)
  obtain t entries where task: "task = (t, entries)" by (cases task)
  obtain slot s' where acq: "AcquireSlot t s = (slot, s')" by (cases "AcquireSlot t s")
  obtain r df1 where a: "EventLoop k slot entries df = (r, df1)"
    by (cases "EventLoop k slot entries df")
  have d: "distinct entries" "distinct (concat (map snd tasks))"
    "set entries \<inter> set (concat (map snd tasks)) = {}"
    using Cons.prems(3) task by auto
  have dj: "set entries \<inter> D = {}" "set (concat (map snd tasks)) \<inter> (D \<union> set entries) = {}"
    using Cons.prems(4) task d(3) by auto
  have l1: "Logged (D \<union> set entries) df1"
    using EventLoop_logged [OF Cons.prems(1,2) d(1) dj(1), of k slot] a by simp
  have sb: "SameBooking df df1" using EventLoop_SameBooking [of df k slot entries] a by simp
  show ?case
  proof (cases r)
    case (Inl x)
    have "Logged (D \<union> set (concat (map snd (task # tasks)))) df1"
      by (rule Logged_mono [OF l1]) (use task in auto)
    then show ?thesis using task acq a Inl by simp
  next
    case (Inr u)
    have "Logged (D \<union> set entries \<union> set (concat (map snd tasks))) (snd (Process k tasks s' df1))"
      by (rule Cons.IH [OF WellFormed_SameBooking [OF Cons.prems(1) sb] l1 d(2) dj(2)])
    moreover have "D \<union> set entries \<union> set (concat (map snd tasks)) = D \<union> set (concat (map snd (task # tasks)))"
      using task by auto
    ultimately show ?thesis using task acq a Inr by simp
  qed
qed

lemma Logged_CreateSlots: "Logged {} (CreateSlots n df)"
  by (auto simp: Logged_def NodeLogged_def CreateSlots_def FilterCreateSlots_def BranchCreateSlots_def)

lemma WellFormed_passes: "WellFormed rk (df\<lparr>passes := x\<rparr>) = WellFormed rk df"
  by (simp add: WellFormed_def)

lemma RunLoop_logged:
  assumes wf: "WellFormed rk df" and d: "imt \<longrightarrow> distinct (concat (map snd tasks))"
  shows "Logged UNIV (snd (RunLoop imt tasks df))"
proof -
  let ?df = "df\<lparr>passes := passes df + 1\<rparr>"
  have wf': "\<And>n. WellFormed rk (CreateSlots n ?df)"
    using WellFormed_SameBooking [OF _ SameBooking_CreateSlots] wf WellFormed_passes by blast
  show ?thesis
  proof (cases imt)
    case True
    have "Logged ({} \<union> set (concat (map snd tasks)))
       (snd (Process (CallDepth ?df) tasks InitialSlots (CreateSlots (fNSlots ?df) ?df)))"
      by (rule Process_logged [OF wf' Logged_CreateSlots]) (use d True in auto)
    then show ?thesis using True by (auto simp: RunLoop_def Let_def intro: Logged_mono)
  next
    case False
    have "distinct (map int [0..<tEntries (fTree ?df)])"
      by (simp add: distinct_map)
    then have "Logged ({} \<union> set (map int [0..<tEntries (fTree ?df)]))
       (snd (EventLoop (CallDepth ?df) 0 (map int [0..<tEntries (fTree ?df)]) (CreateSlots 1 ?df)))"
      by (intro EventLoop_logged [OF wf' Logged_CreateSlots]) auto
    then show ?thesis using False by (auto simp: RunLoop_def Let_def intro: Logged_mono)
  qed
qed

lemma Run_filters_branches:
  "fBookedFilters (snd (Run imt tasks df)) = fBookedFilters (snd (RunLoop imt tasks df)) \<and>
   fBookedBranches (snd (Run imt tasks df)) = fBookedBranches (snd (RunLoop imt tasks df))"
  by (auto simp: Run_def AfterLoop_def split: prod.splits sum.splits)

subsection \<open>A repeated request is served from the cache\<close>

lemma GetTmpBranchValue_again:
  assumes wf: "WellFormed rk df"
    and first: "GetTmpBranchValue k c slot entry df = (Inr v, df')"
  shows "GetTmpBranchValue k c slot entry df' = (Inr v, df')"
proof (cases k)
  case 0
  then show ?thesis using first by simp
next
  case (Suc k')
  obtain b where b: "map_of (fBookedBranches df) c = Some b"
    using first Suc by (auto split: option.splits)
  have guard: "slot < length (bLastCheckedEntry b) \<and> slot < length (bLastResult b)"
    using first Suc b by (auto split: if_splits)
  show ?thesis
  proof (cases "entry \<noteq> bLastCheckedEntry b ! slot")
    case False
    then show ?thesis using first Suc b guard by auto
  next
    case True
    have mem: "(c, b) \<in> set (fBookedBranches df)" using b by (rule map_of_SomeD)
    have below: "\<forall>c' \<in> set (bBranches b). c' \<in> set (bTmpBranches b) \<longrightarrow> rk c' < rk c"
      using wf mem by (fastforce simp: WellFormed_def)
    obtain r df1 where rv: "ReadValues k' (bBranches b) (bTmpBranches b) slot entry df = (r, df1)"
      by (cases "ReadValues k' (bBranches b) (bTmpBranches b) slot entry df")
    obtain vs where r: "r = Inr vs" and call: "CallExpression b c slot entry vs df1 = (Inr v, df')"
      using first Suc b guard True rv by (auto split: sum.splits)
    have same: "map_of (fBookedBranches df1) c = Some b"
      using values_above(2) [OF wf below order_refl, of k' slot entry] rv b by simp
    have v: "bExpression b vs = Some v"
      and df': "df' = ModifyBranch c
                (\<lambda>b. b\<lparr>bLastResult := (bLastResult b)[slot := v],
                       bLastCheckedEntry := (bLastCheckedEntry b)[slot := entry]\<rparr>)
                (ModifyBranch c (\<lambda>b. b\<lparr>bCalls := bCalls b @ [(slot, entry)]\<rparr>) df1)"
      using call by (auto simp: CallExpression_def Let_def split: option.splits)
    have look: "map_of (fBookedBranches df') c =
        Some (b\<lparr>bCalls := bCalls b @ [(slot, entry)],
                bLastResult := (bLastResult b)[slot := v],
                bLastCheckedEntry := (bLastCheckedEntry b)[slot := entry]\<rparr>)"
      using same by (simp add: df' ModifyBranch_def map_of_map_entry)
    show ?thesis using Suc look guard by simp
  qed
qed

lemma CheckFilters_again:
  assumes wf: "WellFormed rk df"
    and valid: "\<forall>i. p = Some i \<longrightarrow> i < length (fBookedFilters df)"
    and first: "CheckFilters k p slot entry df = (Inr passed, df')"
  shows "CheckFilters k p slot entry df' = (Inr passed, df')"
proof (cases p)
  case None
  then show ?thesis using first by simp
next
  case (Some i)
  have i: "i < length (fBookedFilters df)" using valid Some by simp
  show ?thesis
  proof (cases k)
    case 0
    then show ?thesis using first Some by simp
  next
    case (Suc k')
    let ?f = "fBookedFilters df ! i"
    have guard: "slot < length (fLastCheckedEntry ?f) \<and> slot < length (fLastResult ?f)
         \<and> slot < length (fAccepted ?f) \<and> slot < length (fRejected ?f)"
      using first Some Suc by (auto simp: Let_def split: if_splits)
    show ?thesis
    proof (cases "entry \<noteq> fLastCheckedEntry ?f ! slot")
      case False
      then show ?thesis using first Some Suc guard by (auto simp: Let_def)
    next
      case True
      have up: "\<forall>p'. fPrevData ?f = Some p' \<longrightarrow> p' < i \<and> p' < length (fBookedFilters df)"
        using wf i by (auto simp: WellFormed_def)
      obtain r df1 where c: "CheckFilters k' (fPrevData ?f) slot entry df = (r, df1)"
        by (cases "CheckFilters k' (fPrevData ?f) slot entry df")
      have sb1: "SameBooking df df1"
        using CheckFilters_SameBooking [of df k' "fPrevData ?f" slot entry] c by simp
      have len1: "length (fBookedFilters df1) = length (fBookedFilters df)"
        by (rule SameBooking_filters(1) [OF sb1])
      have f1: "fBookedFilters df1 ! i = ?f"
        using CheckFilters_above [OF wf up order_refl, of k' slot entry] c by simp
      obtain passedUp where r: "r = Inr passedUp"
        using first Some Suc guard True c by (auto simp: Let_def split: sum.splits)
      show ?thesis
      proof (cases passedUp)
        case False
        have p: "passed = False" and df': "df' = RecordRejected i slot entry df1"
          using first Some Suc guard True c r False by (auto simp: Let_def)
        have "fBookedFilters df' ! i =
            ?f\<lparr>fLastResult := (fLastResult ?f)[slot := False],
               fLastCheckedEntry := (fLastCheckedEntry ?f)[slot := entry]\<rparr>"
          using i len1 f1 by (simp add: df' RecordRejected_def ModifyFilter_def)
        then show ?thesis using Some Suc guard p by (simp add: Let_def)
      next
        case pu: True
        obtain r2 df2 where rv: "ReadValues k' (fBranches ?f) (fTmpBranches ?f) slot entry df1 = (r2, df2)"
          by (cases "ReadValues k' (fBranches ?f) (fTmpBranches ?f) slot entry df1")
        have s2: "fBookedFilters df2 = fBookedFilters df1"
          using values_filters(2) [of k' "fBranches ?f" "fTmpBranches ?f" slot entry df1] rv by simp
        obtain vs where r2: "r2 = Inr vs" and call: "CallFilter ?f i slot entry vs df2 = (Inr passed, df')"
          using first Some Suc guard True c r pu rv by (auto simp: Let_def split: sum.splits)
        have "fFilter ?f vs = Some passed" and df': "df' =
            ModifyFilter i
                (\<lambda>f. f\<lparr>fAccepted :=
                         (if HasName f \<and> passed
                          then (fAccepted f)[slot := fAccepted f ! slot + 1]
                          else fAccepted f),
                       fRejected :=
                         (if HasName f \<and> \<not> passed
                          then (fRejected f)[slot := fRejected f ! slot + 1]
                          else fRejected f),
                       fLastResult := (fLastResult f)[slot := passed],
                       fLastCheckedEntry := (fLastCheckedEntry f)[slot := entry]\<rparr>)
                (ModifyFilter i (\<lambda>f. f\<lparr>fCalls := fCalls f @ [(slot, entry)]\<rparr>) df2)"
          using call by (auto simp: CallFilter_def Let_def split: option.splits)
        let ?f' = "fBookedFilters df' ! i"
        have "fLastCheckedEntry ?f' = (fLastCheckedEntry ?f)[slot := entry] \<and>
            fLastResult ?f' = (fLastResult ?f)[slot := passed] \<and>
            length (fAccepted ?f') = length (fAccepted ?f) \<and>
            length (fRejected ?f') = length (fRejected ?f)"
          using i len1 f1 s2 by (simp add: df' ModifyFilter_def)
        then show ?thesis using Some Suc guard by (simp add: Let_def)
      qed
    qed
  qed
qed

text \<open>
Claim C2.  Let the root be well-formed and, in the parallel branch, let no entry be handed
out twice.  Then in a pass the callable of a filter and the callable of a derived column
are called at most once for an entry and a slot, whatever the outcome of the pass and
however many actions, named filters and other nodes ask for the result.  A request that
returned is, when repeated for the same entry and slot, answered with the same result and
writes nothing: it is served from the cache of the slot and logs no call.
\<close>

theorem called_once:
  assumes "WellFormed rk df" and "imtEnabled \<longrightarrow> distinct (concat (map snd tasks))"
  shows "(\<forall>f \<in> set (fBookedFilters (snd (Run imtEnabled tasks df))). distinct (fCalls f)) \<and>
    (\<forall>(n, b) \<in> set (fBookedBranches (snd (Run imtEnabled tasks df))). distinct (bCalls b)) \<and>
    (\<forall>k i slot entry passed df'.
       i < length (fBookedFilters df) \<longrightarrow>
       CheckFilters k (Some i) slot entry df = (Inr passed, df') \<longrightarrow>
       CheckFilters k (Some i) slot entry df' = (Inr passed, df')) \<and>
    (\<forall>k c slot entry v df'.
       GetTmpBranchValue k c slot entry df = (Inr v, df') \<longrightarrow>
       GetTmpBranchValue k c slot entry df' = (Inr v, df'))"
proof -
  have logs: "(\<forall>f \<in> set (fBookedFilters (snd (Run imtEnabled tasks df))). distinct (fCalls f)) \<and>
    (\<forall>(n, b) \<in> set (fBookedBranches (snd (Run imtEnabled tasks df))). distinct (bCalls b))"
    using RunLoop_logged [OF assms] Run_filters_branches [of imtEnabled tasks df]
    by (auto simp: Logged_def NodeLogged_def)
  have filters: "CheckFilters k (Some i) slot entry df' = (Inr passed, df')"
    if "i < length (fBookedFilters df)"
      and "CheckFilters k (Some i) slot entry df = (Inr passed, df')"
    for k i slot entry passed df'
    using CheckFilters_again [OF assms(1) _ that(2)] that(1) by simp
  have branches: "GetTmpBranchValue k c slot entry df' = (Inr v, df')"
    if "GetTmpBranchValue k c slot entry df = (Inr v, df')" for k c slot entry v df'
    using GetTmpBranchValue_again [OF assms(1) that] .
  show ?thesis using logs filters branches by blast
qed

text \<open>
The example root with shared nodes.
\<close>

lemmas shared_unfold = SharedRoot_def SharedTree_def

theorem called_once_witness:
  "WellFormed (\<lambda>n. 0) SharedRoot \<and>
   distinct (concat (map snd [(7, [0, 1]), (4, [2, 3]), (7, [4 :: int])])) \<and>
   fst (Run True [(7, [0, 1]), (4, [2, 3]), (7, [4])] SharedRoot) = Inr () \<and>
   map fCalls (fBookedFilters (snd (Run True [(7, [0, 1]), (4, [2, 3]), (7, [4])] SharedRoot))) =
     [[(0, 0), (0, 1), (1, 2), (1, 3), (0, 4)]] \<and>
   map (bCalls \<circ> snd) (fBookedBranches (snd (Run True [(7, [0, 1]), (4, [2, 3]), (7, [4])] SharedRoot))) =
     [[(0, 0), (0, 1), (1, 2), (1, 3), (0, 4)]] \<and>
   list_all (\<lambda>f. distinct (fCalls f))
     (fBookedFilters (snd (Run True [(7, [0, 1]), (4, [2, 3]), (7, [4])] SharedRoot)))"
proof -
  let ?tasks = "[(7, [0, 1]), (4, [2, 3]), (7, [4 :: int])] :: (nat \<times> int list) list"
  have wf: "WellFormed (\<lambda>n. 0) SharedRoot"
    by (simp add: WellFormed_def shared_unfold run_unfold)
  have d: "True \<longrightarrow> distinct (concat (map snd ?tasks))" by simp
  have ok: "fst (Run True ?tasks SharedRoot) = Inr ()"
    by (simp add: shared_unfold run_unfold)
  have calls: "map fCalls (fBookedFilters (snd (Run True ?tasks SharedRoot))) =
     [[(0, 0), (0, 1), (1, 2), (1, 3), (0, 4)]]"
    "map (bCalls \<circ> snd) (fBookedBranches (snd (Run True ?tasks SharedRoot))) =
     [[(0, 0), (0, 1), (1, 2), (1, 3), (0, 4)]]"
    by (simp_all add: shared_unfold run_unfold)
  have once: "\<forall>f \<in> set (fBookedFilters (snd (Run True ?tasks SharedRoot))). distinct (fCalls f)"
    using called_once [OF wf d] by blast
  show ?thesis using wf ok calls once by (simp add: list_all_iff)
qed

subsection \<open>The bound on the depth of calls is not reached\<close>

lemma SameBooking_booked:
  assumes "SameBooking df df'"
  shows "(map_of (fBookedBranches df') c = None) = (map_of (fBookedBranches df) c = None)"
  using SameBooking_branches(4) [OF assms, of c] by (metis map_option_is_None)

lemma WellFormed_rank:
  "WellFormed rk df \<Longrightarrow> map_of (fBookedBranches df) c = Some b \<Longrightarrow>
   rk c < length (fBookedBranches df) \<and>
   (\<forall>c' \<in> set (bBranches b). c' \<in> set (bTmpBranches b) \<longrightarrow> rk c' < rk c)"
  by (auto simp: WellFormed_def dest!: map_of_SomeD)

lemma values_converge:
  "WellFormed rk df \<Longrightarrow> 0 < k \<Longrightarrow> (map_of (fBookedBranches df) c \<noteq> None \<longrightarrow> rk c < k) \<Longrightarrow>
     fst (GetTmpBranchValue k c slot entry df) \<noteq> Inl Diverges"
  "WellFormed rk df \<Longrightarrow>
   (\<forall>c \<in> set cs. c \<in> set tmpbl \<longrightarrow> 0 < k \<and> (map_of (fBookedBranches df) c \<noteq> None \<longrightarrow> rk c < k)) \<Longrightarrow>
     fst (ReadValues k cs tmpbl slot entry df) \<noteq> Inl Diverges"
proof (induction k c slot entry df and k cs tmpbl slot entry df
    rule: GetTmpBranchValue_ReadValues.induct)
  case (1 branch slot entry df)
  then show ?case by simp
next
  case (2 k branch slot entry df)
  show ?case
  proof (cases "map_of (fBookedBranches df) branch")
    case None
    then show ?thesis by simp
  next
    case (Some b)
    show ?thesis
    proof (cases "slot < length (bLastCheckedEntry b) \<and> slot < length (bLastResult b) \<and>
        entry \<noteq> bLastCheckedEntry b ! slot")
      case False
      then show ?thesis using Some by auto
    next
      case True
      have rank: "rk branch < Suc k" using "2.prems"(3) Some by simp
      have below: "\<forall>c \<in> set (bBranches b). c \<in> set (bTmpBranches b) \<longrightarrow>
          0 < k \<and> (map_of (fBookedBranches df) c \<noteq> None \<longrightarrow> rk c < k)"
        using WellFormed_rank [OF "2.prems"(1) Some] rank by fastforce
      have "fst (ReadValues k (bBranches b) (bTmpBranches b) slot entry df) \<noteq> Inl Diverges"
        using "2.IH" [OF Some _ _ "2.prems"(1) below] True by simp
      then show ?thesis
        using Some True
        by (auto simp: CallExpression_def Let_def split: prod.splits sum.splits option.splits)
    qed
  qed
next
  case (3 k tmpbl slot entry df)
  then show ?case by simp
next
  case (4 k c cs tmpbl slot entry df)
  let ?first = "if c \<in> set tmpbl then GetTmpBranchValue k c slot entry df
            else (case ReadBranch (fTree df) c entry of
                    None \<Rightarrow> (Inl (UnknownBranch c), df)
                  | Some v \<Rightarrow> (Inr v, df))"
  obtain r df1 where f: "?first = (r, df1)" by (cases ?first)
  have sb: "SameBooking df df1"
    using f values_SameBooking(1) [of df k c slot entry]
    by (auto split: if_splits option.splits)
  have wf1: "WellFormed rk df1" using WellFormed_SameBooking [OF "4.prems"(1) sb] .
  have r: "r \<noteq> Inl Diverges"
  proof (cases "c \<in> set tmpbl")
    case True
    then have "fst (GetTmpBranchValue k c slot entry df) \<noteq> Inl Diverges"
      using "4.IH"(1) [OF True "4.prems"(1)] "4.prems"(2) by simp
    then show ?thesis using True f by simp
  next
    case False
    then show ?thesis using f by (auto split: option.splits)
  qed
  show ?case
  proof (cases r)
    case (Inl e)
    then show ?thesis using f r by simp
  next
    case (Inr v)
    have "\<forall>c \<in> set cs. c \<in> set tmpbl \<longrightarrow>
        0 < k \<and> (map_of (fBookedBranches df1) c \<noteq> None \<longrightarrow> rk c < k)"
      using "4.prems"(2) SameBooking_booked [OF sb] by simp
    then have "fst (ReadValues k cs tmpbl slot entry df1) \<noteq> Inl Diverges"
      using "4.IH"(2) [OF f [symmetric] Inr wf1] by simp
    then show ?thesis using f Inr by (auto split: prod.splits sum.splits)
  qed
qed

lemma ReadValues_converges:
  assumes wf: "WellFormed rk df" and k: "length (fBookedBranches df) < k"
  shows "fst (ReadValues k cs tmpbl slot entry df) \<noteq> Inl Diverges"
proof (rule values_converge(2) [OF wf])
  show "\<forall>c \<in> set cs. c \<in> set tmpbl \<longrightarrow>
      0 < k \<and> (map_of (fBookedBranches df) c \<noteq> None \<longrightarrow> rk c < k)"
    using WellFormed_rank [OF wf] k by fastforce
qed

lemma CheckFilters_converges:
  "WellFormed rk df \<Longrightarrow>
   (\<forall>i. p = Some i \<longrightarrow>
      i < length (fBookedFilters df) \<and> i + length (fBookedBranches df) + 1 < k) \<Longrightarrow>
   fst (CheckFilters k p slot entry df) \<noteq> Inl Diverges"
proof (induction k p slot entry df rule: CheckFilters.induct)
  case (1 k slot entry df)
  then show ?case by simp
next
  case (2 i slot entry df)
  then show ?case by simp
next
  case (3 k i slot entry df)
  let ?f = "fBookedFilters df ! i"
  have i: "i < length (fBookedFilters df)" "i + length (fBookedBranches df) < k"
    using "3.prems"(2) by auto
  show ?case
  proof (cases "slot < length (fLastCheckedEntry ?f) \<and> slot < length (fLastResult ?f)
         \<and> slot < length (fAccepted ?f) \<and> slot < length (fRejected ?f)
         \<and> entry \<noteq> fLastCheckedEntry ?f ! slot")
    case False
    then show ?thesis by (auto simp: Let_def)
  next
    case True
    have up: "\<forall>p'. fPrevData ?f = Some p' \<longrightarrow>
        p' < length (fBookedFilters df) \<and> p' + length (fBookedBranches df) + 1 < k"
      using "3.prems"(1) i by (fastforce simp: WellFormed_def)
    obtain r df1 where c: "CheckFilters k (fPrevData ?f) slot entry df = (r, df1)"
      by (cases "CheckFilters k (fPrevData ?f) slot entry df")
    have r: "r \<noteq> Inl Diverges"
      using "3.IH" [OF HOL.refl _ _ "3.prems"(1) up] True c by simp
    have sb1: "SameBooking df df1"
      using CheckFilters_SameBooking [of df k "fPrevData ?f" slot entry] c by simp
    have wf1: "WellFormed rk df1" by (rule WellFormed_SameBooking [OF "3.prems"(1) sb1])
    have "length (fBookedBranches df1) < k"
      using SameBooking_branches(1) [OF sb1] i(2) by simp
    then have "fst (ReadValues k (fBranches ?f) (fTmpBranches ?f) slot entry df1) \<noteq> Inl Diverges"
      by (rule ReadValues_converges [OF wf1])
    then show ?thesis
      using True c r
      by (auto simp: Let_def CallFilter_def split: prod.splits sum.splits bool.splits option.splits)
  qed
qed

lemma ActionRun_converges:
  assumes wf: "WellFormed rk df" and i: "i < length (fBookedActions df)"
    and k: "length (fBookedFilters df) + length (fBookedBranches df) < k"
  shows "fst (ActionRun k i slot entry df) \<noteq> Inl Diverges"
proof -
  let ?a = "fBookedActions df ! i"
  have valid: "\<forall>j. aPrevData ?a = Some j \<longrightarrow>
      j < length (fBookedFilters df) \<and> j + length (fBookedBranches df) + 1 < k"
    using wf i k by (fastforce simp: WellFormed_def)
  obtain r df1 where c: "CheckFilters k (aPrevData ?a) slot entry df = (r, df1)"
    by (cases "CheckFilters k (aPrevData ?a) slot entry df")
  have r: "r \<noteq> Inl Diverges" using CheckFilters_converges [OF wf valid, of slot entry] c by simp
  have sb1: "SameBooking df df1"
    using CheckFilters_SameBooking [of df k "aPrevData ?a" slot entry] c by simp
  have wf1: "WellFormed rk df1" by (rule WellFormed_SameBooking [OF wf sb1])
  have "length (fBookedBranches df1) < k" using SameBooking_branches(1) [OF sb1] k by simp
  then have "fst (ReadValues k (aBranches ?a) (aTmpBranches ?a) slot entry df1) \<noteq> Inl Diverges"
    by (rule ReadValues_converges [OF wf1])
  then show ?thesis
    using c r by (auto simp: ActionRun_def Let_def split: prod.splits sum.splits bool.splits)
qed

lemma RunActions_converges:
  "WellFormed rk df \<Longrightarrow> (\<forall>i \<in> set is. i < length (fBookedActions df)) \<Longrightarrow>
   length (fBookedFilters df) + length (fBookedBranches df) < k \<Longrightarrow>
   fst (RunActions k is slot entry df) \<noteq> Inl Diverges"
proof (induction "is" arbitrary: df)
  case Nil
  then show ?case by simp
next
  case (Cons i "is")
  obtain r df1 where a: "ActionRun k i slot entry df = (r, df1)"
    by (cases "ActionRun k i slot entry df")
  have r: "r \<noteq> Inl Diverges"
    using ActionRun_converges [OF Cons.prems(1) _ Cons.prems(3), of i slot entry] Cons.prems(2) a
    by simp
  have sb: "SameBooking df df1" using ActionRun_SameBooking [of df k i slot entry] a by simp
  have "fst (RunActions k is slot entry df1) \<noteq> Inl Diverges"
    using Cons.IH [OF WellFormed_SameBooking [OF Cons.prems(1) sb]] Cons.prems(2,3)
      SameBooking_actions(1) [OF sb] SameBooking_filters(1) [OF sb] SameBooking_branches(1) [OF sb]
    by simp
  then show ?case using a r by (auto split: sum.splits)
qed

lemma CheckNamedFilters_converges:
  "WellFormed rk df \<Longrightarrow> (\<forall>i \<in> set is. i < length (fBookedFilters df)) \<Longrightarrow>
   length (fBookedFilters df) + length (fBookedBranches df) < k \<Longrightarrow>
   fst (CheckNamedFilters k is slot entry df) \<noteq> Inl Diverges"
proof (induction "is" arbitrary: df)
  case Nil
  then show ?case by simp
next
  case (Cons i "is")
  obtain r df1 where a: "CheckFilters k (Some i) slot entry df = (r, df1)"
    by (cases "CheckFilters k (Some i) slot entry df")
  have "\<forall>j. Some i = Some j \<longrightarrow>
      j < length (fBookedFilters df) \<and> j + length (fBookedBranches df) + 1 < k"
    using Cons.prems(2,3) by auto
  then have r: "r \<noteq> Inl Diverges"
    using CheckFilters_converges [OF Cons.prems(1), of "Some i" k slot entry] a by simp
  have sb: "SameBooking df df1" using CheckFilters_SameBooking [of df k "Some i" slot entry] a by simp
  have "fst (CheckNamedFilters k is slot entry df1) \<noteq> Inl Diverges"
    using Cons.IH [OF WellFormed_SameBooking [OF Cons.prems(1) sb]] Cons.prems(2,3)
      SameBooking_filters(1) [OF sb] SameBooking_branches(1) [OF sb]
    by simp
  then show ?case using a r by (auto split: sum.splits)
qed

lemma ProcessEntry_converges:
  assumes wf: "WellFormed rk df"
    and k: "length (fBookedFilters df) + length (fBookedBranches df) < k"
  shows "fst (ProcessEntry k slot entry df) \<noteq> Inl Diverges"
proof -
  obtain r df1 where a: "RunActions k [0..<length (fBookedActions df)] slot entry df = (r, df1)"
    by (cases "RunActions k [0..<length (fBookedActions df)] slot entry df")
  have r: "r \<noteq> Inl Diverges"
    using RunActions_converges [OF wf _ k, of "[0..<length (fBookedActions df)]" slot entry] a
    by simp
  have sb: "SameBooking df df1"
    using RunActions_SameBooking [of df k "[0..<length (fBookedActions df)]" slot entry] a by simp
  have wf1: "WellFormed rk df1" by (rule WellFormed_SameBooking [OF wf sb])
  have "fst (CheckNamedFilters k (fBookedNamedFilters df1) slot entry df1) \<noteq> Inl Diverges"
  proof (rule CheckNamedFilters_converges [OF wf1])
    show "\<forall>i \<in> set (fBookedNamedFilters df1). i < length (fBookedFilters df1)"
      using wf1 by (simp add: WellFormed_def)
    show "length (fBookedFilters df1) + length (fBookedBranches df1) < k"
      using k SameBooking_filters(1) [OF sb] SameBooking_branches(1) [OF sb] by simp
  qed
  then show ?thesis using a r by (auto simp: ProcessEntry_def split: sum.splits)
qed

lemma EventLoop_converges:
  "WellFormed rk df \<Longrightarrow> length (fBookedFilters df) + length (fBookedBranches df) < k \<Longrightarrow>
   fst (EventLoop k slot entries df) \<noteq> Inl Diverges"
proof (induction entries arbitrary: df)
  case Nil
  then show ?case by simp
next
  case (Cons e entries)
  obtain r df1 where a: "ProcessEntry k slot e df = (r, df1)"
    by (cases "ProcessEntry k slot e df")
  have r: "r \<noteq> Inl Diverges" using ProcessEntry_converges [OF Cons.prems, of slot e] a by simp
  have sb: "SameBooking df df1" using ProcessEntry_SameBooking [of df k slot e] a by simp
  have "fst (EventLoop k slot entries df1) \<noteq> Inl Diverges"
    using Cons.IH [OF WellFormed_SameBooking [OF Cons.prems(1) sb]] Cons.prems(2)
      SameBooking_filters(1) [OF sb] SameBooking_branches(1) [OF sb] by simp
  then show ?case using a r by (auto split: sum.splits)
qed

lemma Process_converges:
  "WellFormed rk df \<Longrightarrow> length (fBookedFilters df) + length (fBookedBranches df) < k \<Longrightarrow>
   fst (Process k tasks s df) \<noteq> Inl Diverges"
proof (induction tasks arbitrary: df s)
  case Nil
  then show ?case by simp
next
  case (Cons task tasks)
  obtain t entries where task: "task = (t, entries)" by (cases task)
  obtain slot s' where acq: "AcquireSlot t s = (slot, s')" by (cases "AcquireSlot t s")
  obtain r df1 where a: "EventLoop k slot entries df = (r, df1)"
    by (cases "EventLoop k slot entries df")
  have r: "r \<noteq> Inl Diverges" using EventLoop_converges [OF Cons.prems, of slot entries] a by simp
  have sb: "SameBooking df df1" using EventLoop_SameBooking [of df k slot entries] a by simp
  have "fst (Process k tasks s' df1) \<noteq> Inl Diverges"
    using Cons.IH [OF WellFormed_SameBooking [OF Cons.prems(1) sb]] Cons.prems(2)
      SameBooking_filters(1) [OF sb] SameBooking_branches(1) [OF sb] by simp
  then show ?case using task acq a r by (auto split: sum.splits)
qed

text \<open>
The model bounds the depth of the calls between nodes by the number of booked filters and
temporary branches plus one.  On a well-formed root the bound is never reached: a pass
returns, or throws what the tree or a callable threw.
\<close>

theorem Run_converges:
  assumes "WellFormed rk df"
  shows "fst (Run imtEnabled tasks df) \<noteq> Inl Diverges"
proof -
  let ?df = "df\<lparr>passes := passes df + 1\<rparr>"
  have wf': "\<And>n. WellFormed rk (CreateSlots n ?df)"
    using WellFormed_SameBooking [OF _ SameBooking_CreateSlots] assms WellFormed_passes by blast
  have len: "\<And>n. length (fBookedFilters (CreateSlots n ?df)) + length (fBookedBranches (CreateSlots n ?df))
      < CallDepth ?df"
    by (simp add: CreateSlots_def CallDepth_def)
  have "fst (RunLoop imtEnabled tasks df) \<noteq> Inl Diverges"
    using Process_converges [OF wf' len] EventLoop_converges [OF wf' len]
    by (simp add: RunLoop_def Let_def)
  then show ?thesis by (auto simp: Run_def split: prod.splits sum.splits)
qed

theorem Run_converges_witness:
  "WellFormed (\<lambda>n. 0) (snd ThrowingBooked) \<and>
   fst (Run False [] (snd ThrowingBooked)) = Inl UserCallableFailure \<and>
   WellFormed (\<lambda>n. 0) SharedRoot \<and>
   fst (Run True [(7, [0, 1]), (4, [2, 3]), (7, [4])] SharedRoot) = Inr ()"
proof -
  have wf: "WellFormed (\<lambda>n. 0) (snd ThrowingBooked)"
    by (simp add: WellFormed_def ThrowingBooked_def ThrowingTree_def run_unfold)
  have "fst (Run False [] (snd ThrowingBooked)) \<noteq> Inl Diverges"
    using Run_converges [OF wf] .
  moreover have "fst (Run False [] (snd ThrowingBooked)) = Inl UserCallableFailure"
    by (simp add: ThrowingBooked_def ThrowingTree_def run_unfold)
  moreover have "WellFormed (\<lambda>n. 0) SharedRoot"
    by (simp add: WellFormed_def shared_unfold run_unfold)
  moreover have "fst (Run True [(7, [0, 1]), (4, [2, 3]), (7, [4])] SharedRoot) = Inr ()"
    by (simp add: shared_unfold run_unfold)
  ultimately show ?thesis using wf by simp
qed

subsection \<open>The counters of a later pass\<close>

text \<open>
The example root with one entry.
\<close>

lemmas single_unfold = SingleRebooked_def SingleBooked_def SingleTree_def

text \<open>
Claim C4 at a second pass.  On a tree with one entry, the count observed after the first
pass is 1 and the report shows the named filter with 1 accepted of 1.  A second count is
booked and observed: \<open>CreateSlots\<close> sets the counters to zero and, the vectors having their
size already, leaves the last checked entry, 0, in the cache.  In the second pass the
filter is served from the cache at entry 0, its callable is not called and nothing is
counted: the count is 1 again, and the report shows the filter with 0 accepted of 0,
though one entry reached it.
\<close>

theorem second_pass_report:
  "fst (Get False [] (fst SingleBooked) (snd SingleBooked)) = Inr (Counted 1) \<and>
   Report (snd (Get False [] (fst SingleBooked) (snd SingleBooked))) =
     [\<lparr>rName = ''pos'', rAccepted = 1, rAll = 1, rPerc = 100\<rparr>] \<and>
   fst (Get False [] (fst SingleRebooked) (snd SingleRebooked)) = Inr (Counted 1) \<and>
   passes (snd (Get False [] (fst SingleRebooked) (snd SingleRebooked))) = 2 \<and>
   map fLastCheckedEntry (fBookedFilters (snd SingleRebooked)) = [[0]] \<and>
   map fCalls (fBookedFilters (snd (Get False [] (fst SingleRebooked) (snd SingleRebooked)))) = [[]] \<and>
   Report (snd (Get False [] (fst SingleRebooked) (snd SingleRebooked))) =
     [\<lparr>rName = ''pos'', rAccepted = 0, rAll = 0, rPerc = 0\<rparr>]"
  by (simp add: single_unfold run_unfold)

end
